theory Spec2Isabelle
  imports Main "HOL-Library.AList"
begin

section \<open>The topic connection checker (node.py)\<close>

text \<open>
  A shallow embedding of \<^verbatim>\<open>TopicConnectionChecker\<close>. The node object is a record
  that every method takes and returns; the ROS graph and the Python import machinery are
  an environment record of query results; log calls append to a log held in the node
  record; an exception is a value that carries the node as the raise left it.
\<close>

subsection \<open>Data\<close>

type_synonym topic = string
type_synonym node_id = "string \<times> string"
type_synonym time = nat
type_synonym msg_class = "string \<times> string"

text \<open>The policy enumerations of rclpy.qos that the source names or copies.\<close>

datatype QoSDurabilityPolicy =
  DURABILITY_SYSTEM_DEFAULT | TRANSIENT_LOCAL | VOLATILE | DURABILITY_UNKNOWN

datatype QoSReliabilityPolicy =
  RELIABILITY_SYSTEM_DEFAULT | RELIABLE | BEST_EFFORT | RELIABILITY_UNKNOWN

datatype QoSHistoryPolicy =
  HISTORY_SYSTEM_DEFAULT | KEEP_LAST | KEEP_ALL | HISTORY_UNKNOWN

datatype QoSLivelinessPolicy =
  LIVELINESS_SYSTEM_DEFAULT | AUTOMATIC | MANUAL_BY_TOPIC | LIVELINESS_UNKNOWN

record QoSProfile =
  durability :: QoSDurabilityPolicy
  reliability :: QoSReliabilityPolicy
  history :: QoSHistoryPolicy
  depth :: int
  lifespan :: int
  deadline :: int
  liveliness :: QoSLivelinessPolicy
  liveliness_lease_duration :: int
  avoid_ros_namespace_conventions :: bool

record publisher_info =
  node_name :: string
  node_namespace :: string
  qos_profile :: QoSProfile

text \<open>
  What the node asks of the outside: the three graph queries of rclpy's Node, whether
  \<^verbatim>\<open>importlib.import_module(package + ".msg")\<close> followed by \<^verbatim>\<open>getattr\<close> finds the class
  (False stands for ImportError or AttributeError), and the values the QoSProfile
  constructor gives to the arguments a call leaves out.
\<close>

record env =
  get_topic_names_and_types :: "(topic \<times> string list) list"
  get_publishers_info_by_topic :: "topic \<Rightarrow> publisher_info list"
  get_subscriber_names_and_types_by_node :: "string \<Rightarrow> string \<Rightarrow> (topic \<times> string list) list"
  importable :: "string \<Rightarrow> string \<Rightarrow> bool"
  QoSProfile_defaults :: QoSProfile

text \<open>One entry of \<^verbatim>\<open>topic_data\<close>: the dict with keys received, publishers, last_received.\<close>

record observation =
  received :: bool
  publishers :: "node_id list"
  last_received :: "time option"

datatype log_entry =
    Info_started
  | Warn_no_type topic
  | Error_import topic
  | Warn_stuck topic string
  | Warn_unexpected topic
  | Info_next_round "topic list"
  | Error_no_publishers string topic
  | Debug_status topic bool
  | Debug_not_checked topic

text \<open>
  The node. \<^verbatim>\<open>topic_data\<close> is a Python dict, iterated in insertion order: an association
  list that \<open>AList.update\<close> overwrites in place or extends at the end.
  \<^verbatim>\<open>topics_to_check_next_round\<close> is a Python set that the source turns into a list: a
  list without duplicates, in insertion order (Python fixes no order for it).
  \<^verbatim>\<open>subscriptions\<close> records each \<^verbatim>\<open>create_subscription\<close> call, \<^verbatim>\<open>timer\<close> whether a
  timer is armed, \<^verbatim>\<open>check_completed\<close> the threading.Event.
\<close>

record checker =
  important_topics :: "topic list"
  ignore_topics :: "topic list"
  topic_data :: "(topic \<times> observation) list"
  check_completed :: bool
  topics_to_check_next_round :: "topic list"
  checked_topics :: "topic set"
  reported_topics :: "topic set"
  timer :: bool
  default_qos_profile :: QoSProfile
  subscriptions :: "(topic \<times> msg_class \<times> QoSProfile) list"
  log :: "log_entry list"

datatype py_error = KeyError | TypeError

datatype outcome = Returned checker | Raised py_error checker

fun state_of :: "outcome \<Rightarrow> checker" where
  "state_of (Returned st) = st"
| "state_of (Raised e st) = st"

definition emit :: "log_entry \<Rightarrow> checker \<Rightarrow> checker" where
  "emit e st = st\<lparr>log := log st @ [e]\<rparr>"

definition set_add :: "'a \<Rightarrow> 'a list \<Rightarrow> 'a list" where
  "set_add x xs = (if x \<in> set xs then xs else xs @ [x])"

subsection \<open>Construction\<close>

definition init :: "env \<Rightarrow> checker" where
  "init e =
    \<lparr>important_topics =
       [''/control/command/control_cmd'',
        ''/control/trajectory_follower/control_cmd'',
        ''/control/shift_decider/gear_cmd'',
        ''/planning/scenario_planning/trajectory'',
        ''/planning/turn_indicators_cmd'',
        ''/planning/mission_planning/route'',
        ''/perception/traffic_light_recognition/traffic_signals'',
        ''/perception/object_recognition/objects''],
     ignore_topics = [''/rosout'', ''/parameter_events''],
     topic_data = [],
     check_completed = False,
     topics_to_check_next_round = [],
     checked_topics = {},
     reported_topics = {},
     timer = False,
     default_qos_profile =
       (QoSProfile_defaults e)
         \<lparr>durability := VOLATILE, reliability := BEST_EFFORT,
          history := KEEP_LAST, depth := 1\<rparr>,
     subscriptions = [],
     log = [Info_started]\<rparr>"

subsection \<open>Subscribing: check_topic and its helpers\<close>

fun get_topic_type_loop :: "(topic \<times> string list) list \<Rightarrow> topic \<Rightarrow> string option" where
  "get_topic_type_loop [] topic = None"
| "get_topic_type_loop ((t, types) # rest) topic =
     (if t = topic \<and> types \<noteq> [] then Some (types ! 0)
      else get_topic_type_loop rest topic)"

definition get_topic_type :: "env \<Rightarrow> topic \<Rightarrow> string option" where
  "get_topic_type e topic = get_topic_type_loop (get_topic_names_and_types e) topic"

text \<open>Python's \<^verbatim>\<open>str.split(sep)\<close> for a one-character separator.\<close>

fun split_str :: "char \<Rightarrow> string \<Rightarrow> string list" where
  "split_str c [] = [[]]"
| "split_str c (x # xs) =
     (if x = c then [] # split_str c xs
      else (case split_str c xs of
              w # ws \<Rightarrow> (x # w) # ws
            | [] \<Rightarrow> [[x]]))"

definition get_publisher_qos :: "env \<Rightarrow> topic \<Rightarrow> checker \<Rightarrow> QoSProfile" where
  "get_publisher_qos e topic st =
    (let publishers_info = get_publishers_info_by_topic e topic in
     if publishers_info = [] then default_qos_profile st
     else
       (let pub_qos = qos_profile (publishers_info ! 0) in
        (QoSProfile_defaults e)
          \<lparr>durability := durability pub_qos,
           reliability := reliability pub_qos,
           history := history pub_qos,
           depth := depth pub_qos,
           lifespan := lifespan pub_qos,
           deadline := deadline pub_qos,
           liveliness := liveliness pub_qos,
           liveliness_lease_duration := liveliness_lease_duration pub_qos\<rparr>))"

text \<open>
  \<^verbatim>\<open>importlib.import_module(name)\<close>, called without a package, raises TypeError when
  the name starts with a dot (a relative import), before it looks for any module.
\<close>

definition is_relative_name :: "string \<Rightarrow> bool" where
  "is_relative_name name = (case name of [] \<Rightarrow> False | c # _ \<Rightarrow> c = CHR ''.'')"

text \<open>
  \<^verbatim>\<open>check_topic\<close>, first half (up to the second \<^verbatim>\<open>return\<close>): the message class, or the
  log entry of the early return, or the exception that the \<^verbatim>\<open>except\<close> clause does not
  catch. A missing or empty type name is falsy (warning); a type name without exactly
  three parts is the ValueError of the unpacking, a class that cannot be imported the
  ImportError or AttributeError (error); a package part that is empty or starts with a dot
  makes the module name relative, and the TypeError of the import leaves the method.
\<close>

datatype resolution = Resolved msg_class | Skipped log_entry | Uncaught py_error

definition resolve_msg_class :: "env \<Rightarrow> topic \<Rightarrow> resolution" where
  "resolve_msg_class e topic =
    (case get_topic_type e topic of
       None \<Rightarrow> Skipped (Warn_no_type topic)
     | Some msg_type \<Rightarrow>
         if msg_type = [] then Skipped (Warn_no_type topic)
         else
           (case split_str CHR ''/'' msg_type of
              [package_name, _, msg_name] \<Rightarrow>
                if is_relative_name (package_name @ ''.msg'') then Uncaught TypeError
                else if importable e package_name msg_name
                then Resolved (package_name, msg_name)
                else Skipped (Error_import topic)
            | _ \<Rightarrow> Skipped (Error_import topic)))"

text \<open>Second half: create the observation, pick the profile, subscribe.\<close>

definition check_topic :: "env \<Rightarrow> topic \<Rightarrow> checker \<Rightarrow> outcome" where
  "check_topic e topic st =
    (case resolve_msg_class e topic of
       Uncaught err \<Rightarrow> Raised err st
     | Skipped entry \<Rightarrow> Returned (emit entry st)
     | Resolved msg_class \<Rightarrow>
         (let st1 = st\<lparr>topic_data :=
                AList.update topic
                  \<lparr>received = False, publishers = [], last_received = None\<rparr>
                  (topic_data st)\<rparr>;
              qos = get_publisher_qos e topic st1
          in Returned (st1\<lparr>subscriptions := subscriptions st1 @ [(topic, msg_class, qos)]\<rparr>)))"

text \<open>
  The body of the loop of \<^verbatim>\<open>check_topics\<close>: an exception of \<^verbatim>\<open>check_topic\<close> leaves the
  loop before \<^verbatim>\<open>checked_topics.add\<close>.
\<close>

definition check_one :: "env \<Rightarrow> topic \<Rightarrow> checker \<Rightarrow> outcome" where
  "check_one e topic st =
    (if topic \<notin> checked_topics st then
       (case check_topic e topic st of
          Raised err st' \<Rightarrow> Raised err st'
        | Returned st1 \<Rightarrow>
            Returned (st1\<lparr>checked_topics := insert topic (checked_topics st1)\<rparr>))
     else Returned st)"

fun check_topics_loop :: "env \<Rightarrow> topic list \<Rightarrow> checker \<Rightarrow> outcome" where
  "check_topics_loop e [] st = Returned st"
| "check_topics_loop e (topic # rest) st =
     (case check_one e topic st of
        Raised err st' \<Rightarrow> Raised err st'
      | Returned st1 \<Rightarrow> check_topics_loop e rest st1)"

text \<open>
  \<^verbatim>\<open>check_topics\<close> up to the wait: clear the event, subscribe, arm the timer. When the
  loop raises, the timer is left as it was.
\<close>

definition check_topics_start :: "env \<Rightarrow> checker \<Rightarrow> outcome" where
  "check_topics_start e st =
    (case check_topics_loop e (important_topics st) (st\<lparr>check_completed := False\<rparr>) of
       Raised err st' \<Rightarrow> Raised err st'
     | Returned st' \<Rightarrow> Returned (st'\<lparr>timer := True\<rparr>))"

subsection \<open>Callbacks\<close>

definition topic_callback :: "time \<Rightarrow> topic \<Rightarrow> checker \<Rightarrow> outcome" where
  "topic_callback now topic st =
    (case map_of (topic_data st) topic of
       None \<Rightarrow> Raised KeyError st
     | Some d \<Rightarrow>
         Returned (st\<lparr>topic_data :=
           AList.update topic (d\<lparr>received := True, last_received := Some now\<rparr>)
             (topic_data st)\<rparr>))"

fun finish_check_loop :: "env \<Rightarrow> topic list \<Rightarrow> checker \<Rightarrow> outcome" where
  "finish_check_loop e [] st = Returned st"
| "finish_check_loop e (topic # rest) st =
     (let publishers_info = get_publishers_info_by_topic e topic in
      case map_of (topic_data st) topic of
        None \<Rightarrow> Raised KeyError st
      | Some d \<Rightarrow>
          finish_check_loop e rest
            (st\<lparr>topic_data :=
               AList.update topic
                 (d\<lparr>publishers := map (\<lambda>p. (node_name p, node_namespace p)) publishers_info\<rparr>)
                 (topic_data st)\<rparr>))"

definition finish_check :: "env \<Rightarrow> checker \<Rightarrow> outcome" where
  "finish_check e st =
    (case finish_check_loop e (important_topics st) st of
       Raised err st' \<Rightarrow> Raised err st'
     | Returned st' \<Rightarrow> Returned (st'\<lparr>check_completed := True\<rparr>))"

subsection \<open>Analysis and upstream tracing\<close>

text \<open>
  The body of the loop over \<^verbatim>\<open>node_subscriptions\<close> in \<^verbatim>\<open>analyze_topic_connections\<close>.
  \<open>trace_known\<close> is its last \<^verbatim>\<open>if\<close>/\<^verbatim>\<open>elif\<close>, which the zero-publisher branch falls
  through to and the branch for more than two publishers skips by \<^verbatim>\<open>continue\<close>.
\<close>

definition trace_known :: "topic \<Rightarrow> checker \<Rightarrow> checker" where
  "trace_known topic st =
    (case map_of (topic_data st) topic of
       Some d \<Rightarrow> emit (Debug_status topic (\<not> received d)) st
     | None \<Rightarrow>
         if topic \<notin> checked_topics st then
           (emit (Debug_not_checked topic) st)
             \<lparr>topics_to_check_next_round := set_add topic (topics_to_check_next_round st)\<rparr>
         else st)"

definition trace_topic :: "env \<Rightarrow> string \<Rightarrow> topic \<Rightarrow> checker \<Rightarrow> checker" where
  "trace_topic e nname topic st =
    (if topic \<in> set (ignore_topics st) then st
     else
       (let publishers_info = get_publishers_info_by_topic e topic in
        if length publishers_info = 0 then
          trace_known topic (emit (Error_no_publishers nname topic) st)
        else if length publishers_info > 2 then st
        else trace_known topic st))"

fun trace_subscriptions :: "env \<Rightarrow> string \<Rightarrow> (topic \<times> string list) list \<Rightarrow> checker \<Rightarrow> checker" where
  "trace_subscriptions e nname [] st = st"
| "trace_subscriptions e nname ((topic, types) # rest) st =
     trace_subscriptions e nname rest (trace_topic e nname topic st)"

fun trace_publishers :: "env \<Rightarrow> node_id list \<Rightarrow> checker \<Rightarrow> checker" where
  "trace_publishers e [] st = st"
| "trace_publishers e ((nname, nnamespace) # rest) st =
     trace_publishers e rest
       (trace_subscriptions e nname
          (get_subscriber_names_and_types_by_node e nname nnamespace) st)"

definition analyze_topic_connections :: "env \<Rightarrow> topic \<Rightarrow> checker \<Rightarrow> outcome" where
  "analyze_topic_connections e stuck_topic st =
    (case map_of (topic_data st) stuck_topic of
       None \<Rightarrow> Raised KeyError st
     | Some d \<Rightarrow> Returned (trace_publishers e (publishers d) st))"

text \<open>
  The first loop of \<^verbatim>\<open>analyze_results\<close>, over \<^verbatim>\<open>topic_data.items()\<close>: the node and the
  list \<^verbatim>\<open>stuck_topics\<close> are threaded through.
\<close>

definition classify :: "topic \<Rightarrow> observation \<Rightarrow> checker \<times> topic list \<Rightarrow> checker \<times> topic list" where
  "classify topic d acc =
    (case acc of (st, stuck_topics) \<Rightarrow>
       if \<not> received d then
         (if topic \<notin> set (ignore_topics st) \<and> length (publishers d) = 1
              \<and> topic \<notin> reported_topics st
          then ((emit (Warn_stuck topic (fst (publishers d ! 0))) st)
                  \<lparr>reported_topics := insert topic (reported_topics st)\<rparr>,
                stuck_topics @ [topic])
          else (st, stuck_topics))
       else if last_received d \<noteq> None then (st, stuck_topics)
       else (emit (Warn_unexpected topic) st, stuck_topics))"

fun classify_loop :: "(topic \<times> observation) list \<Rightarrow> checker \<times> topic list \<Rightarrow> checker \<times> topic list" where
  "classify_loop [] acc = acc"
| "classify_loop ((topic, d) # rest) acc = classify_loop rest (classify topic d acc)"

fun trace_stuck :: "env \<Rightarrow> topic list \<Rightarrow> checker \<Rightarrow> outcome" where
  "trace_stuck e [] st = Returned st"
| "trace_stuck e (topic # rest) st =
     (case analyze_topic_connections e topic st of
        Raised err st' \<Rightarrow> Raised err st'
      | Returned st' \<Rightarrow> trace_stuck e rest st')"

text \<open>\<^verbatim>\<open>analyze_results\<close> up to the test of the frontier: classify, then trace.\<close>

definition analyze_trace :: "env \<Rightarrow> checker \<Rightarrow> outcome" where
  "analyze_trace e st =
    (case classify_loop (topic_data st) (st, []) of
       (st1, stuck_topics) \<Rightarrow> trace_stuck e stuck_topics st1)"

text \<open>The body of the last \<^verbatim>\<open>if\<close> of \<^verbatim>\<open>analyze_results\<close>, before the recursive call.\<close>

definition next_round :: "checker \<Rightarrow> checker" where
  "next_round st =
    (emit (Info_next_round (topics_to_check_next_round st)) st)
      \<lparr>important_topics := topics_to_check_next_round st,
       topics_to_check_next_round := []\<rparr>"

subsection \<open>Rounds\<close>

text \<open>
  What happens while \<^verbatim>\<open>check_topics\<close> waits: messages arrive on subscribed topics (each
  with the clock's reading), and the graph is the one the round's queries see.
\<close>

record round_input =
  graph :: env
  arrivals :: "(topic \<times> time) list"

fun deliver :: "(topic \<times> time) list \<Rightarrow> checker \<Rightarrow> checker" where
  "deliver [] st = st"
| "deliver ((topic, now) # rest) st =
     deliver rest
       (if topic \<in> fst ` set (subscriptions st)
        then state_of (topic_callback now topic st) else st)"

text \<open>
  A run ends when \<^verbatim>\<open>analyze_results\<close> finds the frontier empty (\<open>Finished\<close>); it never
  returns when the timer callback raised before setting the event (\<open>Blocked\<close>: the wait
  has no timeout); an exception in the main thread ends it (\<open>Crashed\<close>); the rounds go
  on for as long as inputs are given (\<open>Out_of_rounds\<close> when the list is used up).
\<close>

datatype run_result =
  Finished checker | Blocked checker | Crashed py_error checker | Out_of_rounds checker

fun check_topics :: "round_input list \<Rightarrow> checker \<Rightarrow> run_result"
  and analyze_results :: "round_input list \<Rightarrow> env \<Rightarrow> checker \<Rightarrow> run_result" where
  "check_topics [] st = Out_of_rounds st"
| "check_topics (r # rs) st =
     (case check_topics_start (graph r) st of
        Raised err st' \<Rightarrow> Crashed err st'
      | Returned st1 \<Rightarrow>
          (case finish_check (graph r) (deliver (arrivals r) st1) of
             Raised err st' \<Rightarrow> Blocked st'
           | Returned st' \<Rightarrow> analyze_results rs (graph r) st'))"
| "analyze_results rs e st =
     (case analyze_trace e st of
        Raised err st' \<Rightarrow> Crashed err st'
      | Returned st' \<Rightarrow>
          if topics_to_check_next_round st' \<noteq> [] then check_topics rs (next_round st')
          else Finished st')"

subsection \<open>Operations as steps\<close>

text \<open>
  The node's state changes by four operations, each taken as atomic: the subscribing half
  of \<^verbatim>\<open>check_topics\<close>, a message callback on a subscribed topic, the timer callback
  \<^verbatim>\<open>finish_check\<close>, and \<^verbatim>\<open>analyze_results\<close> up to its recursive call. The graph may be a
  different one at every step. An operation that raises leaves the state it had reached.
\<close>

definition analyze_step :: "env \<Rightarrow> checker \<Rightarrow> checker" where
  "analyze_step e st =
    (case analyze_trace e st of
       Raised err st' \<Rightarrow> st'
     | Returned st' \<Rightarrow>
         if topics_to_check_next_round st' \<noteq> [] then next_round st' else st')"

inductive step :: "checker \<Rightarrow> checker \<Rightarrow> bool" where
  step_start: "step st (state_of (check_topics_start e st))"
| step_message:
    "topic \<in> fst ` set (subscriptions st) \<Longrightarrow> step st (state_of (topic_callback now topic st))"
| step_finish: "step st (state_of (finish_check e st))"
| step_analyze: "step st (analyze_step e st)"

definition checker_on :: "env \<Rightarrow> topic list \<Rightarrow> checker" where
  "checker_on e ts = (init e)\<lparr>important_topics := ts\<rparr>"

text \<open>
  The states the node can be in: those reached by steps from the constructed node, for any
  list of important topics in place of the constructor's.
\<close>

inductive reachable :: "checker \<Rightarrow> bool" where
  reachable_init: "reachable (checker_on e ts)"
| reachable_step: "reachable st \<Longrightarrow> step st st' \<Longrightarrow> reachable st'"

fun result_state :: "run_result \<Rightarrow> checker" where
  "result_state (Finished st) = st"
| "result_state (Blocked st) = st"
| "result_state (Crashed err st) = st"
| "result_state (Out_of_rounds st) = st"

subsection \<open>Reading the log and the observations\<close>

fun is_stuck_warning :: "topic \<Rightarrow> log_entry \<Rightarrow> bool" where
  "is_stuck_warning t (Warn_stuck t' n) = (t' = t)"
| "is_stuck_warning t _ = False"

definition stuck_warnings :: "topic \<Rightarrow> log_entry list \<Rightarrow> nat" where
  "stuck_warnings t lg = length (filter (is_stuck_warning t) lg)"

definition unexpected_warnings :: "topic \<Rightarrow> log_entry list \<Rightarrow> nat" where
  "unexpected_warnings t lg = length (filter (\<lambda>x. x = Warn_unexpected t) lg)"

definition tracked :: "checker \<Rightarrow> topic set" where
  "tracked st = fst ` set (topic_data st)"

definition subscribed :: "checker \<Rightarrow> topic set" where
  "subscribed st = fst ` set (subscriptions st)"

text \<open>An observation is consistent when it has a timestamp exactly if it was received.\<close>

definition obs_ok :: "observation \<Rightarrow> bool" where
  "obs_ok d = (received d = (last_received d \<noteq> None))"

definition obs_consistent :: "checker \<Rightarrow> bool" where
  "obs_consistent st = list_all (\<lambda>(k, d). obs_ok d) (topic_data st)"

text \<open>The two warnings that \<^verbatim>\<open>analyze_results\<close> itself emits about a topic.\<close>

fun is_verdict :: "log_entry \<Rightarrow> bool" where
  "is_verdict (Warn_stuck t n) = True"
| "is_verdict (Warn_unexpected t) = True"
| "is_verdict _ = False"

definition verdicts :: "log_entry list \<Rightarrow> log_entry list" where
  "verdicts lg = filter is_verdict lg"

text \<open>The test of \<^verbatim>\<open>analyze_results\<close> for reporting a topic as stuck, as a predicate.\<close>

definition stuck_criteria :: "checker \<Rightarrow> topic \<Rightarrow> observation \<Rightarrow> bool" where
  "stuck_criteria st topic d =
    (topic \<notin> set (ignore_topics st) \<and> length (publishers d) = 1
       \<and> topic \<notin> reported_topics st)"

text \<open>
  What the first loop of \<^verbatim>\<open>analyze_results\<close> does with one entry, read off the node as it
  was before the loop: whether the entry is reported as stuck, and the warning it gets.
\<close>

definition newly_stuck :: "checker \<Rightarrow> topic \<times> observation \<Rightarrow> bool" where
  "newly_stuck st p = (\<not> received (snd p) \<and> stuck_criteria st (fst p) (snd p))"

definition verdict_of :: "checker \<Rightarrow> topic \<times> observation \<Rightarrow> log_entry list" where
  "verdict_of st p =
    (if \<not> received (snd p) then
       (if stuck_criteria st (fst p) (snd p)
        then [Warn_stuck (fst p) (fst (publishers (snd p) ! 0))] else [])
     else if last_received (snd p) \<noteq> None then []
     else [Warn_unexpected (fst p)])"

text \<open>The node after that loop, when the keys of \<^verbatim>\<open>topic_data\<close> are distinct.\<close>

definition classified :: "checker \<Rightarrow> checker" where
  "classified st =
    st\<lparr>reported_topics :=
         reported_topics st \<union> fst ` set (filter (newly_stuck st) (topic_data st)),
       log := log st @ concat (map (verdict_of st) (topic_data st))\<rparr>"

definition stuck_list :: "checker \<Rightarrow> topic list" where
  "stuck_list st = map fst (filter (newly_stuck st) (topic_data st))"

text \<open>A received observation stays one from a state to a later one.\<close>

definition receipt_kept :: "checker \<Rightarrow> checker \<Rightarrow> bool" where
  "receipt_kept st st' =
    (\<forall>t d. map_of (topic_data st) t = Some d \<and> received d \<longrightarrow>
       (\<exists>d'. map_of (topic_data st') t = Some d' \<and> received d'))"

text \<open>
  What upstream tracing may change: \<open>traced st s\<close> says that \<open>s\<close> differs from \<open>st\<close> at most
  by log entries that are no verdicts and by additions to the frontier.
\<close>

definition traced :: "checker \<Rightarrow> checker \<Rightarrow> bool" where
  "traced st s =
    (important_topics s = important_topics st \<and> ignore_topics s = ignore_topics st
     \<and> topic_data s = topic_data st \<and> check_completed s = check_completed st
     \<and> checked_topics s = checked_topics st \<and> reported_topics s = reported_topics st
     \<and> timer s = timer st \<and> default_qos_profile s = default_qos_profile st
     \<and> subscriptions s = subscriptions st \<and> verdicts (log s) = verdicts (log st)
     \<and> set (topics_to_check_next_round st) \<subseteq> set (topics_to_check_next_round s)
     \<and> distinct (topics_to_check_next_round s) = distinct (topics_to_check_next_round st))"

text \<open>Invariants of the node, used below.\<close>

definition store_inv :: "checker \<Rightarrow> bool" where
  "store_inv st =
    (distinct (map fst (topic_data st)) \<and> tracked st \<subseteq> subscribed st
     \<and> tracked st \<subseteq> checked_topics st \<and> reported_topics st \<subseteq> tracked st
     \<and> distinct (topics_to_check_next_round st))"

definition warned_once :: "checker \<Rightarrow> bool" where
  "warned_once st =
    (\<forall>t. stuck_warnings t (log st) = (if t \<in> reported_topics st then 1 else 0))"

definition never_unexpected :: "checker \<Rightarrow> bool" where
  "never_unexpected st = (\<forall>t. unexpected_warnings t (log st) = 0)"

definition default_profile_fixed :: "checker \<Rightarrow> bool" where
  "default_profile_fixed st =
    (durability (default_qos_profile st) = VOLATILE
     \<and> reliability (default_qos_profile st) = BEST_EFFORT
     \<and> history (default_qos_profile st) = KEEP_LAST
     \<and> depth (default_qos_profile st) = 1)"

text \<open>What no operation takes away.\<close>

definition grows :: "checker \<Rightarrow> checker \<Rightarrow> bool" where
  "grows st st' =
    (checked_topics st \<subseteq> checked_topics st' \<and> reported_topics st \<subseteq> reported_topics st'
     \<and> tracked st \<subseteq> tracked st' \<and> subscribed st \<subseteq> subscribed st' \<and> receipt_kept st st')"

text \<open>A topic that was tried and has neither observation nor subscription.\<close>

definition given_up :: "topic \<Rightarrow> checker \<Rightarrow> bool" where
  "given_up t st = (t \<in> checked_topics st \<and> t \<notin> tracked st \<and> t \<notin> subscribed st)"

definition node_inv :: "checker \<Rightarrow> bool" where
  "node_inv st =
    (store_inv st \<and> obs_consistent st \<and> warned_once st \<and> never_unexpected st
     \<and> default_profile_fixed st)"

subsection \<open>Concrete graphs\<close>

text \<open>
  Small graphs on which the definitions are run. \<open>chain_graph\<close> is: topic /a with the one
  publisher N1, which subscribes to /rosout and /b; /b has no publisher.
  \<open>fan_graph\<close> adds /c with three publishers and /d with two, both subscribed to by N1,
  and a second topic /a2 published by N1. In \<open>untyped_graph\<close> no topic has a type; in
  \<open>relative_graph\<close> the type of /a has an empty package part.
\<close>

definition rclpy_defaults :: QoSProfile where
  "rclpy_defaults =
    \<lparr>durability = DURABILITY_SYSTEM_DEFAULT, reliability = RELIABILITY_SYSTEM_DEFAULT,
     history = HISTORY_SYSTEM_DEFAULT, depth = 0, lifespan = 0, deadline = 0,
     liveliness = LIVELINESS_SYSTEM_DEFAULT, liveliness_lease_duration = 0,
     avoid_ros_namespace_conventions = False\<rparr>"

definition latched_qos :: QoSProfile where
  "latched_qos =
    \<lparr>durability = TRANSIENT_LOCAL, reliability = RELIABLE, history = KEEP_LAST, depth = 7,
     lifespan = 11, deadline = 13, liveliness = AUTOMATIC, liveliness_lease_duration = 17,
     avoid_ros_namespace_conventions = True\<rparr>"

definition publisher_at :: "string \<Rightarrow> publisher_info" where
  "publisher_at n = \<lparr>node_name = n, node_namespace = ''/'', qos_profile = latched_qos\<rparr>"

definition chain_graph :: env where
  "chain_graph =
    \<lparr>get_topic_names_and_types =
       [(''/a'', [''std_msgs/msg/String'']), (''/b'', [''std_msgs/msg/String''])],
     get_publishers_info_by_topic = (\<lambda>t. if t = ''/a'' then [publisher_at ''N1''] else []),
     get_subscriber_names_and_types_by_node =
       (\<lambda>n ns. if n = ''N1'' \<and> ns = ''/''
               then [(''/rosout'', [''rcl_interfaces/msg/Log'']),
                     (''/b'', [''std_msgs/msg/String''])]
               else []),
     importable = (\<lambda>p m. True),
     QoSProfile_defaults = rclpy_defaults\<rparr>"

definition fan_graph :: env where
  "fan_graph =
    \<lparr>get_topic_names_and_types =
       [(''/a'', [''std_msgs/msg/String'']), (''/a2'', [''std_msgs/msg/String'']),
        (''/c'', [''std_msgs/msg/String'']), (''/d'', [''std_msgs/msg/String''])],
     get_publishers_info_by_topic =
       (\<lambda>t. if t = ''/a'' \<or> t = ''/a2'' then [publisher_at ''N1'']
            else if t = ''/c'' then [publisher_at ''L1'', publisher_at ''L2'', publisher_at ''L3'']
            else if t = ''/d'' then [publisher_at ''M1'', publisher_at ''M2'']
            else []),
     get_subscriber_names_and_types_by_node =
       (\<lambda>n ns. if n = ''N1'' \<and> ns = ''/''
               then [(''/c'', [''std_msgs/msg/String'']), (''/d'', [''std_msgs/msg/String''])]
               else []),
     importable = (\<lambda>p m. True),
     QoSProfile_defaults = rclpy_defaults\<rparr>"

definition untyped_graph :: env where
  "untyped_graph = chain_graph\<lparr>get_topic_names_and_types := []\<rparr>"

definition relative_graph :: env where
  "relative_graph = chain_graph\<lparr>get_topic_names_and_types := [(''/a'', [''/msg/String''])]\<rparr>"

text \<open>
  States of the node on these graphs: after the first round's subscriptions, after its
  timer callback, after its analysis, and after a second round; \<open>silent_finished\<close> has
  the publisherless /b for its important topic; \<open>odd_state\<close> is written by hand and holds
  a received observation without a timestamp; \<open>untyped_started\<close> has tried /a while it had
  no type, and \<open>untyped_retried\<close> has /a put back among the important topics and a new
  round started on a graph where /a has a type.
\<close>

definition chain_started :: checker where
  "chain_started = state_of (check_topics_start chain_graph (checker_on chain_graph [''/a'']))"

definition chain_finished :: checker where
  "chain_finished = state_of (finish_check chain_graph chain_started)"

definition chain_analyzed :: checker where
  "chain_analyzed = analyze_step chain_graph chain_finished"

definition chain_heard :: checker where
  "chain_heard = state_of (topic_callback 42 ''/a'' chain_started)"

definition chain_round2 :: checker where
  "chain_round2 =
    analyze_step chain_graph
      (state_of (finish_check chain_graph
         (state_of (check_topics_start chain_graph chain_analyzed))))"

definition silent_finished :: checker where
  "silent_finished =
    state_of (finish_check chain_graph
      (state_of (check_topics_start chain_graph (checker_on chain_graph [''/b'']))))"

definition odd_state :: checker where
  "odd_state =
    chain_finished\<lparr>topic_data :=
      [(''/a'', \<lparr>received = True, publishers = [], last_received = None\<rparr>)]\<rparr>"

definition untyped_started :: checker where
  "untyped_started =
    state_of (check_topics_start untyped_graph (checker_on untyped_graph [''/a'']))"

definition untyped_retried :: checker where
  "untyped_retried =
    state_of (check_topics_start chain_graph
      (untyped_started\<lparr>important_topics := [''/a'']\<rparr>))"



section \<open>Properties\<close>

subsection \<open>Association lists as dicts\<close>

lemma map_of_None_tracked: "(map_of (topic_data st) k = None) = (k \<notin> tracked st)"
  by (simp add: map_of_eq_None_iff tracked_def)

lemma set_update_subset: "set (AList.update k v al) \<subseteq> insert (k, v) (set al)"
  by (induction al) auto

lemma list_all_update:
  "list_all P al \<Longrightarrow> P (k, v) \<Longrightarrow> list_all P (AList.update k v al)"
  using set_update_subset[of k v al] by (auto simp: list_all_iff)

lemma tracked_update [simp]:
  "tracked (st\<lparr>topic_data := AList.update k v (topic_data st)\<rparr>) = insert k (tracked st)"
  by (simp add: tracked_def AList.dom_update)

lemma tracked_other [simp]:
  "tracked (st\<lparr>important_topics := a\<rparr>) = tracked st"
  "tracked (st\<lparr>check_completed := b\<rparr>) = tracked st"
  "tracked (st\<lparr>topics_to_check_next_round := c\<rparr>) = tracked st"
  "tracked (st\<lparr>checked_topics := d\<rparr>) = tracked st"
  "tracked (st\<lparr>reported_topics := f\<rparr>) = tracked st"
  "tracked (st\<lparr>timer := g\<rparr>) = tracked st"
  "tracked (st\<lparr>subscriptions := h\<rparr>) = tracked st"
  "tracked (st\<lparr>log := i\<rparr>) = tracked st"
  by (simp_all add: tracked_def)

lemma subscribed_other [simp]:
  "subscribed (st\<lparr>important_topics := a\<rparr>) = subscribed st"
  "subscribed (st\<lparr>check_completed := b\<rparr>) = subscribed st"
  "subscribed (st\<lparr>topics_to_check_next_round := c\<rparr>) = subscribed st"
  "subscribed (st\<lparr>checked_topics := d\<rparr>) = subscribed st"
  "subscribed (st\<lparr>reported_topics := f\<rparr>) = subscribed st"
  "subscribed (st\<lparr>timer := g\<rparr>) = subscribed st"
  "subscribed (st\<lparr>topic_data := h\<rparr>) = subscribed st"
  "subscribed (st\<lparr>log := i\<rparr>) = subscribed st"
  by (simp_all add: subscribed_def)

lemma obs_consistent_other [simp]:
  "obs_consistent (st\<lparr>important_topics := a\<rparr>) = obs_consistent st"
  "obs_consistent (st\<lparr>check_completed := b\<rparr>) = obs_consistent st"
  "obs_consistent (st\<lparr>topics_to_check_next_round := c\<rparr>) = obs_consistent st"
  "obs_consistent (st\<lparr>checked_topics := d\<rparr>) = obs_consistent st"
  "obs_consistent (st\<lparr>reported_topics := f\<rparr>) = obs_consistent st"
  "obs_consistent (st\<lparr>timer := g\<rparr>) = obs_consistent st"
  "obs_consistent (st\<lparr>subscriptions := h\<rparr>) = obs_consistent st"
  "obs_consistent (st\<lparr>log := i\<rparr>) = obs_consistent st"
  by (simp_all add: obs_consistent_def)

lemma obs_consistent_update:
  "obs_consistent st \<Longrightarrow> obs_ok v \<Longrightarrow>
   obs_consistent (st\<lparr>topic_data := AList.update k v (topic_data st)\<rparr>)"
  by (simp add: obs_consistent_def list_all_update)

lemma verdicts_append [simp]: "verdicts (xs @ ys) = verdicts xs @ verdicts ys"
  by (simp add: verdicts_def)

subsection \<open>check_topic\<close>

lemma check_topic_cases:
  "(\<exists>err. resolve_msg_class e t = Uncaught err \<and> check_topic e t st = Raised err st) \<or>
   (\<exists>entry. resolve_msg_class e t = Skipped entry
      \<and> check_topic e t st = Returned (emit entry st)) \<or>
   (\<exists>cls. resolve_msg_class e t = Resolved cls \<and> check_topic e t st =
      Returned (st\<lparr>topic_data := AList.update t \<lparr>received = False, publishers = [], last_received = None\<rparr> (topic_data st),
         subscriptions := subscriptions st @ [(t, cls, get_publisher_qos e t st)]\<rparr>))"
  by (cases "resolve_msg_class e t") (simp_all add: check_topic_def Let_def get_publisher_qos_def)

lemma resolve_entry:
  "resolve_msg_class e t = Skipped entry \<Longrightarrow> entry = Warn_no_type t \<or> entry = Error_import t"
  by (auto simp: resolve_msg_class_def split: option.splits list.splits if_splits)

lemma resolve_error: "resolve_msg_class e t = Uncaught err \<Longrightarrow> err = TypeError"
  by (auto simp: resolve_msg_class_def split: option.splits list.splits if_splits)

lemma check_topic_unchanged [simp]:
  "important_topics (state_of (check_topic e t st)) = important_topics st"
  "ignore_topics (state_of (check_topic e t st)) = ignore_topics st"
  "check_completed (state_of (check_topic e t st)) = check_completed st"
  "topics_to_check_next_round (state_of (check_topic e t st)) = topics_to_check_next_round st"
  "checked_topics (state_of (check_topic e t st)) = checked_topics st"
  "reported_topics (state_of (check_topic e t st)) = reported_topics st"
  "timer (state_of (check_topic e t st)) = timer st"
  "default_qos_profile (state_of (check_topic e t st)) = default_qos_profile st"
  using check_topic_cases[of e t st] by (auto simp: emit_def)

lemma check_topic_verdicts [simp]:
  "verdicts (log (state_of (check_topic e t st))) = verdicts (log st)"
  using check_topic_cases[of e t st] resolve_entry[of e t]
  by (auto simp: emit_def verdicts_def)

lemma check_topic_sets:
  "(tracked (state_of (check_topic e t st)) = tracked st
      \<and> subscribed (state_of (check_topic e t st)) = subscribed st)
   \<or> (tracked (state_of (check_topic e t st)) = insert t (tracked st)
       \<and> subscribed (state_of (check_topic e t st)) = insert t (subscribed st))"
  using check_topic_cases[of e t st]
  by (elim disjE exE conjE) (simp_all add: emit_def tracked_def subscribed_def AList.dom_update)

lemma check_topic_tracked:
  "tracked st \<subseteq> tracked (state_of (check_topic e t st))"
  "tracked (state_of (check_topic e t st)) \<subseteq> insert t (tracked st)"
  using check_topic_sets[of e t st] by blast+

lemma check_topic_subscribed:
  "subscribed st \<subseteq> subscribed (state_of (check_topic e t st))"
  "tracked st \<subseteq> subscribed st \<Longrightarrow>
   tracked (state_of (check_topic e t st)) \<subseteq> subscribed (state_of (check_topic e t st))"
  using check_topic_sets[of e t st] by blast+

lemma check_topic_distinct:
  "distinct (map fst (topic_data st)) \<Longrightarrow>
   distinct (map fst (topic_data (state_of (check_topic e t st))))"
  using check_topic_cases[of e t st] by (auto simp: emit_def AList.distinct_update)

lemma check_topic_obs:
  "obs_consistent st \<Longrightarrow> obs_consistent (state_of (check_topic e t st))"
  using check_topic_cases[of e t st]
  by (auto simp: emit_def obs_ok_def intro!: obs_consistent_update)

lemma check_topic_keeps:
  "t \<noteq> u \<Longrightarrow> map_of (topic_data (state_of (check_topic e t st))) u = map_of (topic_data st) u"
  using check_topic_cases[of e t st] by (auto simp: emit_def AList.update_conv')

subsection \<open>The subscribing loop\<close>

lemma check_one_state:
  "(t \<in> checked_topics st \<and> check_one e t st = Returned st)
   \<or> (t \<notin> checked_topics st \<and>
        (\<exists>err. check_topic e t st = Raised err st \<and> check_one e t st = Raised err st))
   \<or> (t \<notin> checked_topics st \<and>
        check_one e t st = Returned ((state_of (check_topic e t st))
          \<lparr>checked_topics := insert t (checked_topics st)\<rparr>))"
  using check_topic_cases[of e t st]
  by (elim disjE exE conjE) (simp_all add: check_one_def emit_def)

text \<open>
  A property that the loop body keeps holds after the loop, whether it returns or raises.
\<close>

lemma check_topics_loop_inv:
  assumes "\<And>t s. P s \<Longrightarrow> P (state_of (check_one e t s))"
    and "P st"
  shows "P (state_of (check_topics_loop e ts st))"
  using assms(2)
proof (induction ts arbitrary: st)
  case Nil
  then show ?case by simp
next
  case (Cons t ts)
  from assms(1)[OF Cons.prems, of t] Cons.IH show ?case
    by (cases "check_one e t st") simp_all
qed

lemma check_one_unchanged [simp]:
  "important_topics (state_of (check_one e t st)) = important_topics st"
  "ignore_topics (state_of (check_one e t st)) = ignore_topics st"
  "check_completed (state_of (check_one e t st)) = check_completed st"
  "topics_to_check_next_round (state_of (check_one e t st)) = topics_to_check_next_round st"
  "reported_topics (state_of (check_one e t st)) = reported_topics st"
  "timer (state_of (check_one e t st)) = timer st"
  "default_qos_profile (state_of (check_one e t st)) = default_qos_profile st"
  "verdicts (log (state_of (check_one e t st))) = verdicts (log st)"
  using check_one_state[of t st e] by auto

lemma check_one_checked:
  "checked_topics st \<subseteq> checked_topics (state_of (check_one e t st))"
  "checked_topics (state_of (check_one e t st)) \<subseteq> insert t (checked_topics st)"
  "check_one e t st = Returned s \<Longrightarrow> checked_topics s = insert t (checked_topics st)"
  using check_one_state[of t st e] by auto

lemma check_one_tracked:
  "tracked st \<subseteq> tracked (state_of (check_one e t st))"
  "subscribed st \<subseteq> subscribed (state_of (check_one e t st))"
  using check_one_state[of t st e] check_topic_tracked(1)[of st e t]
    check_topic_subscribed(1)[of st e t]
  by auto

lemma check_one_tracked_subscribed:
  "tracked st \<subseteq> subscribed st \<Longrightarrow>
   tracked (state_of (check_one e t st)) \<subseteq> subscribed (state_of (check_one e t st))"
  using check_one_state[of t st e] check_topic_subscribed(2)[of st e t] by auto

lemma check_one_tracked_checked:
  "tracked st \<subseteq> checked_topics st \<Longrightarrow>
   tracked (state_of (check_one e t st)) \<subseteq> checked_topics (state_of (check_one e t st))"
proof -
  assume a: "tracked st \<subseteq> checked_topics st"
  note k = check_topic_tracked(2)[of e t st]
  from check_one_state[of t st e] show ?thesis
  proof (elim disjE conjE exE)
    assume "check_one e t st = Returned st"
    with a show ?thesis by simp
  next
    fix err
    assume "check_one e t st = Raised err st"
    with a show ?thesis by simp
  next
    assume "check_one e t st = Returned ((state_of (check_topic e t st))
          \<lparr>checked_topics := insert t (checked_topics st)\<rparr>)"
    then have "tracked (state_of (check_one e t st)) = tracked (state_of (check_topic e t st))"
      "checked_topics (state_of (check_one e t st)) = insert t (checked_topics st)"
      by simp_all
    with a k show ?thesis by blast
  qed
qed

lemma check_one_distinct:
  "distinct (map fst (topic_data st)) \<Longrightarrow>
   distinct (map fst (topic_data (state_of (check_one e t st))))"
  using check_one_state[of t st e] check_topic_distinct[of st e t] by auto

lemma check_one_obs:
  "obs_consistent st \<Longrightarrow> obs_consistent (state_of (check_one e t st))"
  using check_one_state[of t st e] check_topic_obs[of st e t] by auto

lemma check_one_keeps:
  "u \<in> checked_topics st \<Longrightarrow>
   map_of (topic_data (state_of (check_one e t st))) u = map_of (topic_data st) u"
proof -
  assume u: "u \<in> checked_topics st"
  then have "t \<notin> checked_topics st \<Longrightarrow> t \<noteq> u" by blast
  with check_one_state[of t st e] check_topic_keeps[of t u e st] show ?thesis by auto
qed

lemma check_topics_loop_unchanged [simp]:
  "important_topics (state_of (check_topics_loop e ts st)) = important_topics st"
  "ignore_topics (state_of (check_topics_loop e ts st)) = ignore_topics st"
  "check_completed (state_of (check_topics_loop e ts st)) = check_completed st"
  "topics_to_check_next_round (state_of (check_topics_loop e ts st))
     = topics_to_check_next_round st"
  "reported_topics (state_of (check_topics_loop e ts st)) = reported_topics st"
  "timer (state_of (check_topics_loop e ts st)) = timer st"
  "default_qos_profile (state_of (check_topics_loop e ts st)) = default_qos_profile st"
  "verdicts (log (state_of (check_topics_loop e ts st))) = verdicts (log st)"
proof -
  show "important_topics (state_of (check_topics_loop e ts st)) = important_topics st"
    by (rule check_topics_loop_inv[where P = "\<lambda>s. important_topics s = important_topics st"])
       simp_all
  show "ignore_topics (state_of (check_topics_loop e ts st)) = ignore_topics st"
    by (rule check_topics_loop_inv[where P = "\<lambda>s. ignore_topics s = ignore_topics st"])
       simp_all
  show "check_completed (state_of (check_topics_loop e ts st)) = check_completed st"
    by (rule check_topics_loop_inv[where P = "\<lambda>s. check_completed s = check_completed st"])
       simp_all
  show "topics_to_check_next_round (state_of (check_topics_loop e ts st))
     = topics_to_check_next_round st"
    by (rule check_topics_loop_inv[where P = "\<lambda>s. topics_to_check_next_round s
          = topics_to_check_next_round st"])
       simp_all
  show "reported_topics (state_of (check_topics_loop e ts st)) = reported_topics st"
    by (rule check_topics_loop_inv[where P = "\<lambda>s. reported_topics s = reported_topics st"])
       simp_all
  show "timer (state_of (check_topics_loop e ts st)) = timer st"
    by (rule check_topics_loop_inv[where P = "\<lambda>s. timer s = timer st"]) simp_all
  show "default_qos_profile (state_of (check_topics_loop e ts st)) = default_qos_profile st"
    by (rule check_topics_loop_inv[where P = "\<lambda>s. default_qos_profile s
          = default_qos_profile st"])
       simp_all
  show "verdicts (log (state_of (check_topics_loop e ts st))) = verdicts (log st)"
    by (rule check_topics_loop_inv[where P = "\<lambda>s. verdicts (log s) = verdicts (log st)"])
       simp_all
qed

lemma check_topics_loop_checked_mono:
  "checked_topics st \<subseteq> checked_topics (state_of (check_topics_loop e ts st))"
proof (rule check_topics_loop_inv[where P = "\<lambda>s. checked_topics st \<subseteq> checked_topics s"])
  fix t and s :: checker
  assume "checked_topics st \<subseteq> checked_topics s"
  with check_one_checked(1)[of s e t]
  show "checked_topics st \<subseteq> checked_topics (state_of (check_one e t s))" by blast
qed simp

lemma check_topics_loop_checked:
  "check_topics_loop e ts st = Returned s \<Longrightarrow> checked_topics s = checked_topics st \<union> set ts"
proof (induction ts arbitrary: st)
  case Nil
  then show ?case by simp
next
  case (Cons t ts)
  from Cons.prems obtain s1 where s1: "check_one e t st = Returned s1"
    and rest: "check_topics_loop e ts s1 = Returned s"
    by (cases "check_one e t st") simp_all
  from Cons.IH[OF rest] check_one_checked(3)[OF s1] show ?case by auto
qed

lemma check_topics_loop_tracked:
  "tracked st \<subseteq> tracked (state_of (check_topics_loop e ts st))"
proof (rule check_topics_loop_inv[where P = "\<lambda>s. tracked st \<subseteq> tracked s"])
  fix t and s :: checker
  assume "tracked st \<subseteq> tracked s"
  with check_one_tracked(1)[of s e t]
  show "tracked st \<subseteq> tracked (state_of (check_one e t s))" by blast
qed simp

lemma check_topics_loop_subscribed:
  "subscribed st \<subseteq> subscribed (state_of (check_topics_loop e ts st))"
proof (rule check_topics_loop_inv[where P = "\<lambda>s. subscribed st \<subseteq> subscribed s"])
  fix t and s :: checker
  assume "subscribed st \<subseteq> subscribed s"
  with check_one_tracked(2)[of s e t]
  show "subscribed st \<subseteq> subscribed (state_of (check_one e t s))" by blast
qed simp

lemma check_topics_loop_tracked_checked:
  "tracked st \<subseteq> checked_topics st \<Longrightarrow>
   tracked (state_of (check_topics_loop e ts st))
     \<subseteq> checked_topics (state_of (check_topics_loop e ts st))"
  by (rule check_topics_loop_inv[where P = "\<lambda>s. tracked s \<subseteq> checked_topics s"])
     (simp_all add: check_one_tracked_checked)

lemma check_topics_loop_tracked_subscribed:
  "tracked st \<subseteq> subscribed st \<Longrightarrow>
   tracked (state_of (check_topics_loop e ts st))
     \<subseteq> subscribed (state_of (check_topics_loop e ts st))"
  by (rule check_topics_loop_inv[where P = "\<lambda>s. tracked s \<subseteq> subscribed s"])
     (simp_all add: check_one_tracked_subscribed)

lemma check_topics_loop_distinct:
  "distinct (map fst (topic_data st)) \<Longrightarrow>
   distinct (map fst (topic_data (state_of (check_topics_loop e ts st))))"
  by (rule check_topics_loop_inv[where P = "\<lambda>s. distinct (map fst (topic_data s))"])
     (simp_all add: check_one_distinct)

lemma check_topics_loop_obs:
  "obs_consistent st \<Longrightarrow> obs_consistent (state_of (check_topics_loop e ts st))"
  by (rule check_topics_loop_inv[where P = obs_consistent]) (simp_all add: check_one_obs)

lemma check_topics_loop_keeps:
  assumes "u \<in> checked_topics st"
  shows "map_of (topic_data (state_of (check_topics_loop e ts st))) u = map_of (topic_data st) u"
proof -
  let ?P = "\<lambda>s. u \<in> checked_topics s \<and> map_of (topic_data s) u = map_of (topic_data st) u"
  have "?P (state_of (check_topics_loop e ts st))"
  proof (rule check_topics_loop_inv[where P = ?P])
    fix t and s :: checker
    assume "?P s"
    then show "?P (state_of (check_one e t s))"
      using check_one_keeps[of u s e t] check_one_checked(1)[of s e t] by auto
  next
    show "?P st" using assms by simp
  qed
  then show ?thesis by simp
qed

subsection \<open>The message callback\<close>

lemma topic_callback_cases:
  "(map_of (topic_data st) t = None \<and> topic_callback now t st = Raised KeyError st) \<or>
   (\<exists>d. map_of (topic_data st) t = Some d \<and> topic_callback now t st =
      Returned (st\<lparr>topic_data := AList.update t (d\<lparr>received := True, last_received := Some now\<rparr>) (topic_data st)\<rparr>))"
  by (cases "map_of (topic_data st) t") (simp_all add: topic_callback_def)

lemma map_of_Some_tracked: "map_of (topic_data st) t = Some d \<Longrightarrow> t \<in> tracked st"
  using map_of_None_tracked[of st t] by simp

lemma topic_callback_unchanged [simp]:
  "important_topics (state_of (topic_callback now t st)) = important_topics st"
  "ignore_topics (state_of (topic_callback now t st)) = ignore_topics st"
  "check_completed (state_of (topic_callback now t st)) = check_completed st"
  "topics_to_check_next_round (state_of (topic_callback now t st)) = topics_to_check_next_round st"
  "checked_topics (state_of (topic_callback now t st)) = checked_topics st"
  "reported_topics (state_of (topic_callback now t st)) = reported_topics st"
  "timer (state_of (topic_callback now t st)) = timer st"
  "default_qos_profile (state_of (topic_callback now t st)) = default_qos_profile st"
  "subscriptions (state_of (topic_callback now t st)) = subscriptions st"
  "log (state_of (topic_callback now t st)) = log st"
  using topic_callback_cases[of st t now] by auto

lemma topic_callback_tracked [simp]:
  "tracked (state_of (topic_callback now t st)) = tracked st"
  using topic_callback_cases[of st t now] map_of_Some_tracked[of st t]
  by (elim disjE exE conjE) (simp_all add: insert_absorb)

lemma topic_callback_subscribed [simp]:
  "subscribed (state_of (topic_callback now t st)) = subscribed st"
  by (simp add: subscribed_def)

lemma topic_callback_distinct:
  "distinct (map fst (topic_data st)) \<Longrightarrow>
   distinct (map fst (topic_data (state_of (topic_callback now t st))))"
  using topic_callback_cases[of st t now] by (auto simp: AList.distinct_update)

lemma topic_callback_obs:
  "obs_consistent st \<Longrightarrow> obs_consistent (state_of (topic_callback now t st))"
  using topic_callback_cases[of st t now]
  by (auto simp: obs_ok_def intro!: obs_consistent_update)

lemma topic_callback_receipt: "receipt_kept st (state_of (topic_callback now t st))"
  using topic_callback_cases[of st t now]
  by (auto simp: receipt_kept_def AList.update_conv')

subsection \<open>The timer callback, field by field\<close>

lemma finish_check_loop_unchanged [simp]:
  "important_topics (state_of (finish_check_loop e ts st)) = important_topics st"
  "ignore_topics (state_of (finish_check_loop e ts st)) = ignore_topics st"
  "check_completed (state_of (finish_check_loop e ts st)) = check_completed st"
  "topics_to_check_next_round (state_of (finish_check_loop e ts st)) = topics_to_check_next_round st"
  "checked_topics (state_of (finish_check_loop e ts st)) = checked_topics st"
  "reported_topics (state_of (finish_check_loop e ts st)) = reported_topics st"
  "timer (state_of (finish_check_loop e ts st)) = timer st"
  "default_qos_profile (state_of (finish_check_loop e ts st)) = default_qos_profile st"
  "subscriptions (state_of (finish_check_loop e ts st)) = subscriptions st"
  "log (state_of (finish_check_loop e ts st)) = log st"
  by (induction ts arbitrary: st; simp add: Let_def split: option.splits)+

lemma finish_check_loop_inv:
  assumes "\<And>s t d ps. P s \<Longrightarrow> map_of (topic_data s) t = Some d \<Longrightarrow>
            P (s\<lparr>topic_data := AList.update t (d\<lparr>publishers := ps\<rparr>) (topic_data s)\<rparr>)"
    and "P st"
  shows "P (state_of (finish_check_loop e ts st))"
  using assms(2)
  by (induction ts arbitrary: st) (auto simp: Let_def assms(1) split: option.splits)

lemma finish_check_loop_tracked [simp]:
  "tracked (state_of (finish_check_loop e ts st)) = tracked st"
  by (rule finish_check_loop_inv[where P = "\<lambda>s. tracked s = tracked st"])
     (auto simp: insert_absorb dest: map_of_Some_tracked)

lemma finish_check_loop_distinct:
  "distinct (map fst (topic_data st)) \<Longrightarrow>
   distinct (map fst (topic_data (state_of (finish_check_loop e ts st))))"
  by (rule finish_check_loop_inv[where P = "\<lambda>s. distinct (map fst (topic_data s))"])
     (simp_all add: AList.distinct_update)

lemma obs_consistent_lookup:
  "obs_consistent st \<Longrightarrow> map_of (topic_data st) t = Some d \<Longrightarrow> obs_ok d"
  by (auto simp: obs_consistent_def list_all_iff dest!: map_of_SomeD)

lemma finish_check_loop_obs:
  "obs_consistent st \<Longrightarrow> obs_consistent (state_of (finish_check_loop e ts st))"
proof (rule finish_check_loop_inv[where P = obs_consistent])
  fix s t d ps
  assume "obs_consistent s" "map_of (topic_data s) t = Some d"
  then show "obs_consistent (s\<lparr>topic_data := AList.update t (d\<lparr>publishers := ps\<rparr>) (topic_data s)\<rparr>)"
    using obs_consistent_lookup[of s t d] by (auto simp: obs_ok_def intro!: obs_consistent_update)
qed

lemma receipt_kept_refl [simp]: "receipt_kept st st"
  by (simp add: receipt_kept_def)

lemma receipt_kept_trans: "receipt_kept a b \<Longrightarrow> receipt_kept b c \<Longrightarrow> receipt_kept a c"
  unfolding receipt_kept_def by blast

lemma receipt_kept_same: "topic_data st' = topic_data st \<Longrightarrow> receipt_kept st st'"
  by (simp add: receipt_kept_def)

lemma finish_check_loop_receipt: "receipt_kept st (state_of (finish_check_loop e ts st))"
proof (rule finish_check_loop_inv[where P = "receipt_kept st"])
  fix s t d ps
  assume "receipt_kept st s" "map_of (topic_data s) t = Some d"
  then show "receipt_kept st (s\<lparr>topic_data := AList.update t (d\<lparr>publishers := ps\<rparr>) (topic_data s)\<rparr>)"
    by (auto simp: receipt_kept_def AList.update_conv')
qed simp

lemma finish_check_state:
  "state_of (finish_check e st) = state_of (finish_check_loop e (important_topics st) st)
   \<or> state_of (finish_check e st) =
       (state_of (finish_check_loop e (important_topics st) st))\<lparr>check_completed := True\<rparr>"
  by (cases "finish_check_loop e (important_topics st) st") (simp_all add: finish_check_def)

subsection \<open>The classifying loop in closed form\<close>

lemma classify_closed:
  "classify t d (st, stuck) =
     (st\<lparr>reported_topics := reported_topics st \<union> (if newly_stuck st (t, d) then {t} else {}),
         log := log st @ verdict_of st (t, d)\<rparr>,
      stuck @ (if newly_stuck st (t, d) then [t] else []))"
  by (simp add: classify_def newly_stuck_def verdict_of_def stuck_criteria_def emit_def)

lemma newly_stuck_later:
  assumes "ignore_topics st' = ignore_topics st"
    and "reported_topics st' = reported_topics st \<union> R" and "fst p \<notin> R"
  shows "newly_stuck st' p = newly_stuck st p" "verdict_of st' p = verdict_of st p"
  using assms by (auto simp: newly_stuck_def verdict_of_def stuck_criteria_def)

lemma classify_loop_closed:
  "distinct (map fst xs) \<Longrightarrow>
   classify_loop xs (st, stuck) =
     (st\<lparr>reported_topics := reported_topics st \<union> fst ` set (filter (newly_stuck st) xs),
         log := log st @ concat (map (verdict_of st) xs)\<rparr>,
      stuck @ map fst (filter (newly_stuck st) xs))"
proof (induction xs arbitrary: st stuck)
  case Nil
  show ?case by simp
next
  case (Cons p xs)
  obtain t d where p: "p = (t, d)" by (cases p)
  let ?R = "if newly_stuck st (t, d) then {t} else {}"
  let ?st1 = "st\<lparr>reported_topics := reported_topics st \<union> ?R,
                  log := log st @ verdict_of st (t, d)\<rparr>"
  have same: "newly_stuck ?st1 q = newly_stuck st q" "verdict_of ?st1 q = verdict_of st q"
    if "q \<in> set xs" for q
  proof -
    from that Cons.prems have "fst q \<noteq> t" by (auto simp: p)
    then have "fst q \<notin> ?R" by simp
    then show "newly_stuck ?st1 q = newly_stuck st q" "verdict_of ?st1 q = verdict_of st q"
      using newly_stuck_later[of ?st1 st ?R q] by simp_all
  qed
  have f: "filter (newly_stuck ?st1) xs = filter (newly_stuck st) xs"
    by (rule filter_cong) (simp_all add: same)
  have m: "map (verdict_of ?st1) xs = map (verdict_of st) xs"
    by (rule map_cong) (simp_all add: same)
  have d: "distinct (map fst xs)" using Cons.prems by simp
  show ?case
    unfolding p classify_loop.simps classify_closed Cons.IH[OF d] f m
    by (auto simp: Un_assoc)
qed

lemma verdict_count_stuck:
  "distinct (map fst xs) \<Longrightarrow>
   stuck_warnings t (concat (map (verdict_of st) xs)) =
     (if \<exists>d. (t, d) \<in> set xs \<and> newly_stuck st (t, d) then 1 else 0)"
proof (induction xs)
  case Nil
  show ?case by (simp add: stuck_warnings_def)
next
  case (Cons p xs)
  obtain u d where p: "p = (u, d)" by (cases p)
  have here: "stuck_warnings t (verdict_of st (u, d)) = (if u = t \<and> newly_stuck st (u, d) then 1 else 0)"
    by (auto simp: stuck_warnings_def verdict_of_def newly_stuck_def)
  have rest: "stuck_warnings t (concat (map (verdict_of st) xs)) =
     (if \<exists>d. (t, d) \<in> set xs \<and> newly_stuck st (t, d) then 1 else 0)"
    using Cons by simp
  have split: "stuck_warnings t (concat (map (verdict_of st) (p # xs))) =
     stuck_warnings t (verdict_of st (u, d)) + stuck_warnings t (concat (map (verdict_of st) xs))"
    by (simp add: stuck_warnings_def p)
  have notin: "u = t \<Longrightarrow> (t, d') \<notin> set xs" for d'
    using Cons.prems by (auto simp: p intro: rev_image_eqI)
  show ?case
    unfolding split here rest using notin by (auto simp: p)
qed

lemma verdict_count_unexpected:
  "distinct (map fst xs) \<Longrightarrow>
   unexpected_warnings t (concat (map (verdict_of st) xs)) =
     (if \<exists>d. (t, d) \<in> set xs \<and> received d \<and> last_received d = None then 1 else 0)"
proof (induction xs)
  case Nil
  show ?case by (simp add: unexpected_warnings_def)
next
  case (Cons p xs)
  obtain u d where p: "p = (u, d)" by (cases p)
  have here: "unexpected_warnings t (verdict_of st (u, d)) =
      (if u = t \<and> received d \<and> last_received d = None then 1 else 0)"
    by (auto simp: unexpected_warnings_def verdict_of_def)
  have rest: "unexpected_warnings t (concat (map (verdict_of st) xs)) =
     (if \<exists>d. (t, d) \<in> set xs \<and> received d \<and> last_received d = None then 1 else 0)"
    using Cons by simp
  have split: "unexpected_warnings t (concat (map (verdict_of st) (p # xs))) =
     unexpected_warnings t (verdict_of st (u, d)) + unexpected_warnings t (concat (map (verdict_of st) xs))"
    by (simp add: unexpected_warnings_def p)
  have notin: "u = t \<Longrightarrow> (t, d') \<notin> set xs" for d'
    using Cons.prems by (auto simp: p intro: rev_image_eqI)
  show ?case
    unfolding split here rest using notin by (auto simp: p)
qed

subsection \<open>What tracing changes\<close>

lemma trace_known_cases:
  "(\<exists>d. map_of (topic_data st) t = Some d \<and> trace_known t st = emit (Debug_status t (\<not> received d)) st)
   \<or> (map_of (topic_data st) t = None \<and> t \<in> checked_topics st \<and> trace_known t st = st)
   \<or> (map_of (topic_data st) t = None \<and> t \<notin> checked_topics st \<and>
        trace_known t st = st\<lparr>topics_to_check_next_round := set_add t (topics_to_check_next_round st),
                               log := log st @ [Debug_not_checked t]\<rparr>)"
  by (cases "map_of (topic_data st) t") (simp_all add: trace_known_def emit_def)

lemma trace_topic_frame:
  "\<exists>es F. trace_topic e n t st = st\<lparr>topics_to_check_next_round := F, log := log st @ es\<rparr>
     \<and> verdicts es = [] \<and> (F = topics_to_check_next_round st \<or> F = set_add t (topics_to_check_next_round st))"
proof -
  have k: "\<exists>es F. trace_known t s = s\<lparr>topics_to_check_next_round := F, log := log s @ es\<rparr>
     \<and> verdicts es = [] \<and> (F = topics_to_check_next_round s \<or> F = set_add t (topics_to_check_next_round s))" for s
    using trace_known_cases[of s t]
  proof (elim disjE exE conjE)
    fix d :: observation
    assume "trace_known t s = emit (Debug_status t (\<not> received d)) s"
    then have "trace_known t s = s\<lparr>topics_to_check_next_round := topics_to_check_next_round s,
        log := log s @ [Debug_status t (\<not> received d)]\<rparr>" by (simp add: emit_def)
    then show ?thesis by (intro exI conjI) (assumption, simp_all add: verdicts_def)
  next
    assume "trace_known t s = s"
    then have "trace_known t s = s\<lparr>topics_to_check_next_round := topics_to_check_next_round s,
        log := log s @ []\<rparr>" by simp
    then show ?thesis by (intro exI conjI) (assumption, simp_all add: verdicts_def)
  next
    assume "trace_known t s = s\<lparr>topics_to_check_next_round := set_add t (topics_to_check_next_round s),
                               log := log s @ [Debug_not_checked t]\<rparr>"
    then show ?thesis by (intro exI conjI) (assumption, simp_all add: verdicts_def)
  qed
  have same: "st = st\<lparr>topics_to_check_next_round := topics_to_check_next_round st, log := log st @ []\<rparr>"
    by simp
  have "trace_topic e n t st = st
      \<or> trace_topic e n t st = trace_known t (emit (Error_no_publishers n t) st)
      \<or> trace_topic e n t st = trace_known t st"
    by (simp add: trace_topic_def Let_def)
  then consider (skip) "trace_topic e n t st = st"
    | (zero) "trace_topic e n t st = trace_known t (emit (Error_no_publishers n t) st)"
    | (few) "trace_topic e n t st = trace_known t st"
    by blast
  then show ?thesis
  proof cases
    case skip
    with same show ?thesis by (intro exI[of _ "[]"] exI[of _ "topics_to_check_next_round st"]) (simp add: verdicts_def)
  next
    case zero
    from k[of "emit (Error_no_publishers n t) st"] obtain es F where
      "trace_known t (emit (Error_no_publishers n t) st) =
         (emit (Error_no_publishers n t) st)\<lparr>topics_to_check_next_round := F,
            log := log (emit (Error_no_publishers n t) st) @ es\<rparr>"
      "verdicts es = []"
      "F = topics_to_check_next_round (emit (Error_no_publishers n t) st) \<or>
       F = set_add t (topics_to_check_next_round (emit (Error_no_publishers n t) st))"
      by blast
    with zero show ?thesis
      by (intro exI[of _ "Error_no_publishers n t # es"] exI[of _ F]) (simp add: emit_def verdicts_def)
  next
    case few
    with k[of st] show ?thesis by simp
  qed
qed

lemma trace_topic_unchanged [simp]:
  "important_topics (trace_topic e n t st) = important_topics st"
  "ignore_topics (trace_topic e n t st) = ignore_topics st"
  "topic_data (trace_topic e n t st) = topic_data st"
  "check_completed (trace_topic e n t st) = check_completed st"
  "checked_topics (trace_topic e n t st) = checked_topics st"
  "reported_topics (trace_topic e n t st) = reported_topics st"
  "timer (trace_topic e n t st) = timer st"
  "default_qos_profile (trace_topic e n t st) = default_qos_profile st"
  "subscriptions (trace_topic e n t st) = subscriptions st"
  "verdicts (log (trace_topic e n t st)) = verdicts (log st)"
  using trace_topic_frame[of e n t st] by auto

lemma set_add_set [simp]: "set (set_add x xs) = insert x (set xs)"
  by (auto simp: set_add_def)

lemma set_add_distinct [simp]: "distinct (set_add x xs) = distinct xs"
  by (simp add: set_add_def)

lemma trace_topic_frontier:
  "set (topics_to_check_next_round st) \<subseteq> set (topics_to_check_next_round (trace_topic e n t st))"
  "distinct (topics_to_check_next_round (trace_topic e n t st)) = distinct (topics_to_check_next_round st)"
  using trace_topic_frame[of e n t st] by auto

lemma trace_lift:
  assumes "\<And>s n t. P s \<Longrightarrow> P (trace_topic e n t s)" and "P st"
  shows "P (trace_subscriptions e n subs st)"
    and "P (trace_publishers e ps st)"
    and "P (state_of (analyze_topic_connections e t st))"
    and "P (state_of (trace_stuck e ts st))"
proof -
  have subs: "P s \<Longrightarrow> P (trace_subscriptions e n subs s)" for s n subs
    by (induction subs arbitrary: s) (auto simp: assms(1))
  have pubs: "P s \<Longrightarrow> P (trace_publishers e ps s)" for s ps
    by (induction ps arbitrary: s) (auto simp: subs)
  have conn: "P s \<Longrightarrow> P (state_of (analyze_topic_connections e t s))" for s t
    by (cases "map_of (topic_data s) t") (simp_all add: analyze_topic_connections_def pubs)
  have stuck: "P s \<Longrightarrow> P (state_of (trace_stuck e ts s))" for s ts
  proof (induction ts arbitrary: s)
    case (Cons t ts)
    from conn[OF Cons.prems, of t] Cons.IH show ?case
      by (cases "analyze_topic_connections e t s") simp_all
  qed simp
  show "P (trace_subscriptions e n subs st)" "P (trace_publishers e ps st)"
    "P (state_of (analyze_topic_connections e t st))" "P (state_of (trace_stuck e ts st))"
    using assms(2) subs pubs conn stuck by blast+
qed

lemma traced_topic: "traced st s \<Longrightarrow> traced st (trace_topic e n t s)"
  using trace_topic_frontier[where st = s and e = e and n = n and t = t] by (auto simp: traced_def)

lemma traced_refl: "traced st st"
  by (simp add: traced_def)

lemma trace_stuck_traced: "traced st (state_of (trace_stuck e ts st))"
  by (rule trace_lift(4)[where P = "traced st"]) (simp_all add: traced_topic traced_refl)

lemma stuck_warnings_verdicts: "stuck_warnings t (verdicts lg) = stuck_warnings t lg"
proof -
  have "(is_verdict x \<and> is_stuck_warning t x) = is_stuck_warning t x" for x
    by (cases x) simp_all
  then show ?thesis by (simp add: stuck_warnings_def verdicts_def)
qed

lemma unexpected_warnings_verdicts: "unexpected_warnings t (verdicts lg) = unexpected_warnings t lg"
proof -
  have "(is_verdict x \<and> x = Warn_unexpected t) = (x = Warn_unexpected t)" for x
    by (cases x) auto
  then show ?thesis by (simp add: unexpected_warnings_def verdicts_def)
qed

lemma warned_once_same:
  "warned_once st \<Longrightarrow> verdicts (log st') = verdicts (log st) \<Longrightarrow>
   reported_topics st' = reported_topics st \<Longrightarrow> warned_once st'"
  using stuck_warnings_verdicts[of _ "log st"] stuck_warnings_verdicts[of _ "log st'"]
  by (simp add: warned_once_def)

lemma never_unexpected_same:
  "never_unexpected st \<Longrightarrow> verdicts (log st') = verdicts (log st) \<Longrightarrow> never_unexpected st'"
  using unexpected_warnings_verdicts[of _ "log st"] unexpected_warnings_verdicts[of _ "log st'"]
  by (simp add: never_unexpected_def)

lemma default_profile_same:
  "default_profile_fixed st \<Longrightarrow> default_qos_profile st' = default_qos_profile st \<Longrightarrow>
   default_profile_fixed st'"
  by (simp add: default_profile_fixed_def)

lemma node_inv_same:
  assumes "node_inv st"
    and "store_inv st'" and "obs_consistent st'"
    and "verdicts (log st') = verdicts (log st)"
    and "reported_topics st' = reported_topics st"
    and "default_qos_profile st' = default_qos_profile st"
  shows "node_inv st'"
  using assms warned_once_same[of st st'] never_unexpected_same[of st st']
    default_profile_same[of st st']
  by (simp add: node_inv_def)

subsection \<open>Each operation keeps the invariant\<close>

lemma start_state:
  "state_of (check_topics_start e st)
     = state_of (check_topics_loop e (important_topics st) (st\<lparr>check_completed := False\<rparr>))
   \<or> state_of (check_topics_start e st)
     = (state_of (check_topics_loop e (important_topics st) (st\<lparr>check_completed := False\<rparr>)))
         \<lparr>timer := True\<rparr>"
  by (cases "check_topics_loop e (important_topics st) (st\<lparr>check_completed := False\<rparr>)")
     (simp_all add: check_topics_start_def)

lemma start_fields [simp]:
  "important_topics (state_of (check_topics_start e st)) = important_topics st"
  "ignore_topics (state_of (check_topics_start e st)) = ignore_topics st"
  "topics_to_check_next_round (state_of (check_topics_start e st))
     = topics_to_check_next_round st"
  "reported_topics (state_of (check_topics_start e st)) = reported_topics st"
  "default_qos_profile (state_of (check_topics_start e st)) = default_qos_profile st"
  "verdicts (log (state_of (check_topics_start e st))) = verdicts (log st)"
  using start_state[of e st] by auto

lemma start_tracked:
  "tracked (state_of (check_topics_start e st))
     = tracked (state_of (check_topics_loop e (important_topics st)
         (st\<lparr>check_completed := False\<rparr>)))"
  "subscribed (state_of (check_topics_start e st))
     = subscribed (state_of (check_topics_loop e (important_topics st)
         (st\<lparr>check_completed := False\<rparr>)))"
  "topic_data (state_of (check_topics_start e st))
     = topic_data (state_of (check_topics_loop e (important_topics st)
         (st\<lparr>check_completed := False\<rparr>)))"
  "checked_topics (state_of (check_topics_start e st))
     = checked_topics (state_of (check_topics_loop e (important_topics st)
         (st\<lparr>check_completed := False\<rparr>)))"
  using start_state[of e st] by (auto simp: tracked_def subscribed_def)

lemma start_checked:
  "checked_topics st \<subseteq> checked_topics (state_of (check_topics_start e st))"
  "check_topics_start e st = Returned s \<Longrightarrow>
   checked_topics s = checked_topics st \<union> set (important_topics st)"
proof -
  let ?s0 = "st\<lparr>check_completed := False\<rparr>"
  show "checked_topics st \<subseteq> checked_topics (state_of (check_topics_start e st))"
    using check_topics_loop_checked_mono[of ?s0 e "important_topics st"]
    by (simp add: start_tracked)
  assume r: "check_topics_start e st = Returned s"
  then obtain s' where s': "check_topics_loop e (important_topics st) ?s0 = Returned s'"
    and s: "s = s'\<lparr>timer := True\<rparr>"
    by (cases "check_topics_loop e (important_topics st) ?s0")
       (auto simp: check_topics_start_def)
  from check_topics_loop_checked[OF s'] s
  show "checked_topics s = checked_topics st \<union> set (important_topics st)" by simp
qed

lemma start_store: "store_inv st \<Longrightarrow> store_inv (state_of (check_topics_start e st))"
proof -
  assume inv: "store_inv st"
  let ?s0 = "st\<lparr>check_completed := False\<rparr>"
  let ?s1 = "state_of (check_topics_loop e (important_topics st) ?s0)"
  have d: "distinct (map fst (topic_data ?s1))"
    using inv check_topics_loop_distinct[of ?s0 e "important_topics st"] by (simp add: store_inv_def)
  have s: "tracked ?s1 \<subseteq> subscribed ?s1"
    using inv check_topics_loop_tracked_subscribed[of ?s0 e "important_topics st"]
    by (simp add: store_inv_def)
  have c: "tracked ?s1 \<subseteq> checked_topics ?s1"
    using inv check_topics_loop_tracked_checked[of ?s0 e "important_topics st"]
    by (simp add: store_inv_def)
  have "tracked st \<subseteq> tracked ?s1"
    using check_topics_loop_tracked[of ?s0 e "important_topics st"] by simp
  with inv have r: "reported_topics st \<subseteq> tracked ?s1" by (auto simp: store_inv_def)
  have f: "distinct (topics_to_check_next_round st)" using inv by (simp add: store_inv_def)
  have "topic_data (state_of (check_topics_start e st)) = topic_data ?s1"
    "tracked (state_of (check_topics_start e st)) = tracked ?s1"
    "subscribed (state_of (check_topics_start e st)) = subscribed ?s1"
    "checked_topics (state_of (check_topics_start e st)) = checked_topics ?s1"
    by (rule start_tracked)+
  then show ?thesis
    by (simp add: store_inv_def d s c r f)
qed

lemma start_obs: "obs_consistent st \<Longrightarrow> obs_consistent (state_of (check_topics_start e st))"
  using check_topics_loop_obs[of "st\<lparr>check_completed := False\<rparr>" e "important_topics st"]
  by (simp add: obs_consistent_def start_tracked)

lemma start_receipt:
  "tracked st \<subseteq> checked_topics st \<Longrightarrow> receipt_kept st (state_of (check_topics_start e st))"
proof -
  assume a: "tracked st \<subseteq> checked_topics st"
  let ?s0 = "st\<lparr>check_completed := False\<rparr>"
  have "\<exists>d'. map_of (topic_data (state_of (check_topics_start e st))) t = Some d' \<and> received d'"
    if m: "map_of (topic_data st) t = Some d" and r: "received d" for t d
  proof -
    from m a have "t \<in> checked_topics ?s0" using map_of_Some_tracked[of st t d] by auto
    from check_topics_loop_keeps[OF this, of e "important_topics st"] m r
    show ?thesis by (simp add: start_tracked)
  qed
  then show ?thesis unfolding receipt_kept_def by blast
qed

lemma start_inv: "node_inv st \<Longrightarrow> node_inv (state_of (check_topics_start e st))"
  by (rule node_inv_same[of st]) (simp_all add: node_inv_def start_store start_obs)

lemma message_inv: "node_inv st \<Longrightarrow> node_inv (state_of (topic_callback now t st))"
  by (rule node_inv_same[of st])
     (simp_all add: node_inv_def store_inv_def topic_callback_distinct topic_callback_obs)

lemma finish_check_fields [simp]:
  "important_topics (state_of (finish_check e st)) = important_topics st"
  "ignore_topics (state_of (finish_check e st)) = ignore_topics st"
  "topics_to_check_next_round (state_of (finish_check e st)) = topics_to_check_next_round st"
  "checked_topics (state_of (finish_check e st)) = checked_topics st"
  "reported_topics (state_of (finish_check e st)) = reported_topics st"
  "default_qos_profile (state_of (finish_check e st)) = default_qos_profile st"
  "subscriptions (state_of (finish_check e st)) = subscriptions st"
  "log (state_of (finish_check e st)) = log st"
  "topic_data (state_of (finish_check e st)) = topic_data (state_of (finish_check_loop e (important_topics st) st))"
  using finish_check_state[of e st] by auto

lemma finish_check_tracked [simp]: "tracked (state_of (finish_check e st)) = tracked st"
  using finish_check_loop_tracked[of e "important_topics st" st] by (simp add: tracked_def)

lemma finish_check_subscribed [simp]: "subscribed (state_of (finish_check e st)) = subscribed st"
  by (simp add: subscribed_def)

lemma finish_check_receipt: "receipt_kept st (state_of (finish_check e st))"
  using finish_check_loop_receipt[of st e "important_topics st"] by (simp add: receipt_kept_def)

lemma finish_inv: "node_inv st \<Longrightarrow> node_inv (state_of (finish_check e st))"
proof (rule node_inv_same[of st])
  assume inv: "node_inv st"
  then show "node_inv st" .
  show "store_inv (state_of (finish_check e st))"
    using inv finish_check_loop_distinct[of st e "important_topics st"]
    by (simp add: node_inv_def store_inv_def)
  show "obs_consistent (state_of (finish_check e st))"
    using inv finish_check_loop_obs[of st e "important_topics st"]
    by (simp add: node_inv_def obs_consistent_def)
qed simp_all

lemma analyze_trace_closed:
  "distinct (map fst (topic_data st)) \<Longrightarrow>
   analyze_trace e st = trace_stuck e (stuck_list st) (classified st)"
  by (simp add: analyze_trace_def classify_loop_closed classified_def stuck_list_def)

lemma classified_fields [simp]:
  "important_topics (classified st) = important_topics st"
  "ignore_topics (classified st) = ignore_topics st"
  "topic_data (classified st) = topic_data st"
  "check_completed (classified st) = check_completed st"
  "topics_to_check_next_round (classified st) = topics_to_check_next_round st"
  "checked_topics (classified st) = checked_topics st"
  "timer (classified st) = timer st"
  "default_qos_profile (classified st) = default_qos_profile st"
  "subscriptions (classified st) = subscriptions st"
  "tracked (classified st) = tracked st"
  "subscribed (classified st) = subscribed st"
  "obs_consistent (classified st) = obs_consistent st"
  by (simp_all add: classified_def tracked_def subscribed_def obs_consistent_def)

lemma classified_reported:
  "t \<in> reported_topics (classified st) \<longleftrightarrow>
     t \<in> reported_topics st \<or> (\<exists>d. (t, d) \<in> set (topic_data st) \<and> newly_stuck st (t, d))"
  by (auto simp: classified_def intro: rev_image_eqI)

lemma classified_stuck_warnings:
  "distinct (map fst (topic_data st)) \<Longrightarrow>
   stuck_warnings t (log (classified st)) =
     stuck_warnings t (log st) +
       (if \<exists>d. (t, d) \<in> set (topic_data st) \<and> newly_stuck st (t, d) then 1 else 0)"
  using verdict_count_stuck[of "topic_data st" t st]
  by (simp add: classified_def stuck_warnings_def)

lemma classified_unexpected_warnings:
  "distinct (map fst (topic_data st)) \<Longrightarrow>
   unexpected_warnings t (log (classified st)) =
     unexpected_warnings t (log st) +
       (if \<exists>d. (t, d) \<in> set (topic_data st) \<and> received d \<and> last_received d = None
        then 1 else 0)"
  using verdict_count_unexpected[of "topic_data st" t st]
  by (simp add: classified_def unexpected_warnings_def)

lemma newly_stuck_unreported: "newly_stuck st (t, d) \<Longrightarrow> t \<notin> reported_topics st"
  by (simp add: newly_stuck_def stuck_criteria_def)

lemma classified_inv:
  assumes "node_inv st"
  shows "node_inv (classified st)"
proof -
  from assms have d: "distinct (map fst (topic_data st))"
    and s: "store_inv st" and o: "obs_consistent st" and w: "warned_once st"
    and u: "never_unexpected st" and q: "default_profile_fixed st"
    by (simp_all add: node_inv_def store_inv_def)
  have in_tracked: "(t, d') \<in> set (topic_data st) \<Longrightarrow> t \<in> tracked st" for t d'
    by (force simp: tracked_def)
  have "reported_topics st \<subseteq> tracked st" using s by (simp add: store_inv_def)
  then have "reported_topics (classified st) \<subseteq> tracked st"
    using classified_reported[of _ st] in_tracked by blast
  with s have s': "store_inv (classified st)" by (simp add: store_inv_def)
  have w': "warned_once (classified st)"
    unfolding warned_once_def
  proof
    fix t
    show "stuck_warnings t (log (classified st)) =
        (if t \<in> reported_topics (classified st) then 1 else 0)"
      using w newly_stuck_unreported[of st t]
      unfolding classified_stuck_warnings[OF d] classified_reported warned_once_def
      by auto
  qed
  have none: "\<not> (\<exists>d. (t, d) \<in> set (topic_data st) \<and> received d \<and> last_received d = None)" for t
    using o by (auto simp: obs_consistent_def list_all_iff obs_ok_def)
  have u': "never_unexpected (classified st)"
    using u unfolding never_unexpected_def classified_unexpected_warnings[OF d]
    by (simp add: none)
  have q': "default_profile_fixed (classified st)"
    using q by (simp add: default_profile_fixed_def)
  show ?thesis using s' o w' u' q' by (simp add: node_inv_def)
qed

lemma traced_inv: "traced st s \<Longrightarrow> node_inv st \<Longrightarrow> node_inv s"
proof (rule node_inv_same[of st])
  assume t: "traced st s" and inv: "node_inv st"
  show "node_inv st" by (rule inv)
  show "store_inv s" using t inv
    by (simp add: traced_def node_inv_def store_inv_def tracked_def subscribed_def)
  show "obs_consistent s" using t inv by (simp add: traced_def node_inv_def obs_consistent_def)
  show "verdicts (log s) = verdicts (log st)" using t by (simp add: traced_def)
  show "reported_topics s = reported_topics st" using t by (simp add: traced_def)
  show "default_qos_profile s = default_qos_profile st" using t by (simp add: traced_def)
qed

lemma next_round_inv: "node_inv st \<Longrightarrow> node_inv (next_round st)"
proof (rule node_inv_same[of st])
  assume inv: "node_inv st"
  show "node_inv st" by (rule inv)
  show "store_inv (next_round st)" using inv
    by (simp add: next_round_def emit_def node_inv_def store_inv_def tracked_def subscribed_def)
  show "obs_consistent (next_round st)" using inv
    by (simp add: next_round_def emit_def node_inv_def obs_consistent_def)
qed (simp_all add: next_round_def emit_def verdicts_def)

lemma analyze_trace_traced:
  "distinct (map fst (topic_data st)) \<Longrightarrow>
   traced (classified st) (state_of (analyze_trace e st))"
  by (simp add: analyze_trace_closed trace_stuck_traced)

lemma analyze_step_cases:
  "analyze_step e st = state_of (analyze_trace e st)
   \<or> analyze_step e st = next_round (state_of (analyze_trace e st))"
  by (cases "analyze_trace e st") (simp_all add: analyze_step_def)

lemma analyze_inv: "node_inv st \<Longrightarrow> node_inv (analyze_step e st)"
proof -
  assume inv: "node_inv st"
  then have "distinct (map fst (topic_data st))" by (simp add: node_inv_def store_inv_def)
  from analyze_trace_traced[OF this] classified_inv[OF inv]
  have "node_inv (state_of (analyze_trace e st))" by (rule traced_inv)
  with analyze_step_cases[of e st] next_round_inv show ?thesis by auto
qed

lemma init_inv: "node_inv (checker_on e ts)"
  by (simp add: node_inv_def store_inv_def obs_consistent_def warned_once_def
      never_unexpected_def default_profile_fixed_def checker_on_def init_def tracked_def
      subscribed_def stuck_warnings_def unexpected_warnings_def)

lemma step_inv: "step st st' \<Longrightarrow> node_inv st \<Longrightarrow> node_inv st'"
  by (induction rule: step.induct) (simp_all add: start_inv message_inv finish_inv analyze_inv)

lemma reachable_inv: "reachable st \<Longrightarrow> node_inv st"
  by (induction rule: reachable.induct) (simp_all add: init_inv step_inv)

subsection \<open>Each operation only adds\<close>

lemma start_grows: "node_inv st \<Longrightarrow> grows st (state_of (check_topics_start e st))"
proof -
  assume inv: "node_inv st"
  let ?s0 = "st\<lparr>check_completed := False\<rparr>"
  have t: "tracked st \<subseteq> checked_topics st" using inv by (simp add: node_inv_def store_inv_def)
  have "tracked st \<subseteq> tracked (state_of (check_topics_start e st))"
    using check_topics_loop_tracked[of ?s0 e "important_topics st"] by (simp add: start_tracked)
  moreover have "subscribed st \<subseteq> subscribed (state_of (check_topics_start e st))"
    using check_topics_loop_subscribed[of ?s0 e "important_topics st"] by (simp add: start_tracked)
  moreover have "receipt_kept st (state_of (check_topics_start e st))"
    using t by (rule start_receipt)
  moreover have "checked_topics st \<subseteq> checked_topics (state_of (check_topics_start e st))"
    by (rule start_checked(1))
  ultimately show ?thesis by (simp add: grows_def)
qed

lemma message_grows: "grows st (state_of (topic_callback now t st))"
  by (simp add: grows_def topic_callback_receipt)

lemma finish_grows: "grows st (state_of (finish_check e st))"
  by (simp add: grows_def finish_check_receipt)

lemma analyze_step_fields:
  assumes "distinct (map fst (topic_data st))"
  shows "checked_topics (analyze_step e st) = checked_topics st"
    and "reported_topics (analyze_step e st) = reported_topics (classified st)"
    and "topic_data (analyze_step e st) = topic_data st"
    and "subscriptions (analyze_step e st) = subscriptions st"
proof -
  let ?s = "state_of (analyze_trace e st)"
  have tr: "traced (classified st) ?s" using assms by (rule analyze_trace_traced)
  have nr: "checked_topics (next_round s) = checked_topics s"
    "reported_topics (next_round s) = reported_topics s"
    "topic_data (next_round s) = topic_data s"
    "subscriptions (next_round s) = subscriptions s" for s
    by (simp_all add: next_round_def emit_def)
  show "checked_topics (analyze_step e st) = checked_topics st"
    "reported_topics (analyze_step e st) = reported_topics (classified st)"
    "topic_data (analyze_step e st) = topic_data st"
    "subscriptions (analyze_step e st) = subscriptions st"
    using tr analyze_step_cases[of e st] by (auto simp: traced_def nr)
qed

lemma analyze_grows: "node_inv st \<Longrightarrow> grows st (analyze_step e st)"
proof -
  assume "node_inv st"
  then have d: "distinct (map fst (topic_data st))" by (simp add: node_inv_def store_inv_def)
  note a = analyze_step_fields[OF d, of e]
  have "reported_topics st \<subseteq> reported_topics (classified st)"
    using classified_reported[of _ st] by blast
  moreover have "receipt_kept st (analyze_step e st)" by (rule receipt_kept_same) (simp add: a)
  ultimately show ?thesis by (simp add: grows_def a tracked_def subscribed_def)
qed

lemma step_grows: "step st st' \<Longrightarrow> node_inv st \<Longrightarrow> grows st st'"
  by (induction rule: step.induct)
     (simp_all add: start_grows message_grows finish_grows analyze_grows)

subsection \<open>Upstream tracing, one subscribed topic at a time\<close>

lemma trace_topic_skip:
  "2 < length (get_publishers_info_by_topic e topic) \<Longrightarrow> trace_topic e nname topic st = st"
  by (auto simp: trace_topic_def Let_def)

lemma trace_subscriptions_filter:
  "trace_subscriptions e nname subs st =
     trace_subscriptions e nname
       (filter (\<lambda>(t, tys). \<not> 2 < length (get_publishers_info_by_topic e t)) subs) st"
proof (induction subs arbitrary: st)
  case Nil
  show ?case by simp
next
  case (Cons p subs)
  obtain t tys where p: "p = (t, tys)" by (cases p)
  let ?keep = "\<lambda>(t, tys). \<not> 2 < length (get_publishers_info_by_topic e t)"
  have "trace_subscriptions e nname (p # subs) st =
        trace_subscriptions e nname subs (trace_topic e nname t st)"
    by (simp add: p)
  also have "\<dots> = trace_subscriptions e nname (filter ?keep subs) (trace_topic e nname t st)"
    by (rule Cons.IH)
  also have "\<dots> = trace_subscriptions e nname (filter ?keep (p # subs)) st"
    by (cases "2 < length (get_publishers_info_by_topic e t)") (simp_all add: p trace_topic_skip)
  finally show ?case .
qed

text \<open>
  C8. While tracing upstream, a subscribed topic with more than two publishers is skipped
  entirely: the node is left exactly as it was (no log entry of any severity, no addition
  to the frontier), and tracing a node's subscriptions gives the same result as tracing
  them with every such topic removed from the list.
\<close>

theorem trace_topic_skips_wide_fan_in:
  "(2 < length (get_publishers_info_by_topic e topic) \<longrightarrow> trace_topic e nname topic st = st)
   \<and> trace_subscriptions e nname subs st =
       trace_subscriptions e nname
         (filter (\<lambda>(t, tys). \<not> 2 < length (get_publishers_info_by_topic e t)) subs) st"
  using trace_topic_skip[of e topic nname st] trace_subscriptions_filter[of e nname subs st]
  by blast

theorem trace_topic_skips_wide_fan_in_witness:
  "2 < length (get_publishers_info_by_topic fan_graph ''/c'')
   \<and> trace_topic fan_graph ''N1'' ''/c'' (checker_on fan_graph [''/a''])
       = checker_on fan_graph [''/a'']
   \<and> trace_subscriptions fan_graph ''N1'' [(''/c'', []), (''/d'', [])]
         (checker_on fan_graph [''/a''])
       = trace_subscriptions fan_graph ''N1'' [(''/d'', [])] (checker_on fan_graph [''/a''])"
  using trace_topic_skips_wide_fan_in[of fan_graph "''/c''" "''N1''"
      "checker_on fan_graph [''/a'']" "[(''/c'', []), (''/d'', [])]"]
  by (simp add: fan_graph_def)

text \<open>
  C2, as amended. While tracing upstream, a subscribed topic that is not ignore-listed and
  has zero publishers gets the error "subscribing to a topic with no publisher" as the
  next log entry, and is then handled like any other lead: it joins the frontier exactly
  when it has no observation and is not in the checked set; otherwise the frontier is
  unchanged.
\<close>

theorem trace_topic_no_publishers:
  assumes "topic \<notin> set (ignore_topics st)"
    and "get_publishers_info_by_topic e topic = []"
  shows "take (Suc (length (log st))) (log (trace_topic e nname topic st))
           = log st @ [Error_no_publishers nname topic]
     \<and> set (topics_to_check_next_round (trace_topic e nname topic st)) =
         (if topic \<notin> tracked st \<and> topic \<notin> checked_topics st
          then insert topic (set (topics_to_check_next_round st))
          else set (topics_to_check_next_round st))"
proof (cases "map_of (topic_data st) topic")
  case None
  then have "topic \<notin> tracked st" by (simp add: map_of_None_tracked)
  with None assms show ?thesis
    by (auto simp: trace_topic_def trace_known_def emit_def set_add_def)
next
  case (Some d)
  then have "topic \<in> tracked st" using map_of_None_tracked[of st topic] by simp
  with Some assms show ?thesis
    by (simp add: trace_topic_def trace_known_def emit_def)
qed

theorem trace_topic_no_publishers_witness:
  "''/b'' \<notin> set (ignore_topics (checker_on chain_graph [''/a'']))
   \<and> get_publishers_info_by_topic chain_graph ''/b'' = []
   \<and> log (trace_topic chain_graph ''N1'' ''/b'' (checker_on chain_graph [''/a'']))
       = [Info_started, Error_no_publishers ''N1'' ''/b'', Debug_not_checked ''/b'']
   \<and> set (topics_to_check_next_round
            (trace_topic chain_graph ''N1'' ''/b'' (checker_on chain_graph [''/a''])))
       = {''/b''}"
proof -
  have a: "''/b'' \<notin> set (ignore_topics (checker_on chain_graph [''/a'']))"
    by (simp add: checker_on_def init_def)
  have b: "get_publishers_info_by_topic chain_graph ''/b'' = []"
    by (simp add: chain_graph_def)
  have c: "log (trace_topic chain_graph ''N1'' ''/b'' (checker_on chain_graph [''/a'']))
       = [Info_started, Error_no_publishers ''N1'' ''/b'', Debug_not_checked ''/b'']"
    by code_simp
  show ?thesis
    using trace_topic_no_publishers[OF a b, of "''N1''"] a b c
    by (simp add: tracked_def checker_on_def init_def)
qed

text \<open>
  The claim C2 as written fails on the round-trip scenario: /a has the one publisher N1,
  N1 subscribes to /b, /b has no publisher. After the first round /a is stuck, tracing
  logs the error for /b, and /b, never checked, is the frontier.
\<close>

theorem zero_publisher_lead_counterexample:
  "get_publishers_info_by_topic chain_graph ''/b'' = [] \<and>
   (case finish_check chain_graph
           (state_of (check_topics_start chain_graph (checker_on chain_graph [''/a'']))) of
      Returned st \<Rightarrow>
        (case analyze_trace chain_graph st of
           Returned st' \<Rightarrow>
             ''/b'' \<notin> checked_topics st \<and>
             Error_no_publishers ''N1'' ''/b'' \<in> set (log st') \<and>
             topics_to_check_next_round st' = [''/b'']
         | Raised err st' \<Rightarrow> False)
    | Raised err st \<Rightarrow> False)"
  by code_simp

subsection \<open>The timer callback\<close>

text \<open>
  C4. With /a the only important topic and no type known for it, \<^verbatim>\<open>check_topic\<close> warns
  and returns without an observation; \<^verbatim>\<open>finish_check\<close> then raises KeyError at
  \<^verbatim>\<open>self.topic_data[topic]\<close> before it sets the event, and \<^verbatim>\<open>check_topics\<close> never returns
  from its wait.
\<close>

theorem finish_check_missing_observation:
  "(case finish_check untyped_graph
           (state_of (check_topics_start untyped_graph (checker_on untyped_graph [''/a'']))) of
      Raised err st \<Rightarrow>
        err = KeyError \<and> \<not> check_completed st \<and> topic_data st = []
          \<and> log st = [Info_started, Warn_no_type ''/a'']
    | Returned st \<Rightarrow> False)
   \<and> (case check_topics [\<lparr>graph = untyped_graph, arrivals = []\<rparr>]
               (checker_on untyped_graph [''/a'']) of
        Blocked st \<Rightarrow> True
      | _ \<Rightarrow> False)"
  by code_simp

subsection \<open>The concrete states, evaluated\<close>

lemma chain_started_reachable: "reachable chain_started"
  unfolding chain_started_def by (rule reachable_step[OF reachable_init step_start])

lemma chain_started_value:
  "chain_started = 
    \<lparr>important_topics = [''/a''],
     ignore_topics = [''/rosout'', ''/parameter_events''],
     topic_data = [(''/a'', \<lparr>received = False, publishers = [], last_received = None\<rparr>)],
     check_completed = False, topics_to_check_next_round = [],
     checked_topics = {''/a''}, reported_topics = {}, timer = True,
     default_qos_profile = rclpy_defaults\<lparr>durability := VOLATILE, reliability := BEST_EFFORT,
          history := KEEP_LAST, depth := 1\<rparr>,
     subscriptions = [(''/a'', (''std_msgs'', ''String''), latched_qos\<lparr>avoid_ros_namespace_conventions := False\<rparr>)],
     log = [Info_started]\<rparr>"
  by code_simp

lemma chain_finished_reachable: "reachable chain_finished"
  unfolding chain_finished_def by (rule reachable_step[OF chain_started_reachable step_finish])

lemma chain_analyzed_reachable: "reachable chain_analyzed"
  unfolding chain_analyzed_def by (rule reachable_step[OF chain_finished_reachable step_analyze])

lemma chain_finished_value:
  "chain_finished = 
    \<lparr>important_topics = [''/a''],
     ignore_topics = [''/rosout'', ''/parameter_events''],
     topic_data = [(''/a'', \<lparr>received = False, publishers = [(''N1'', ''/'')], last_received = None\<rparr>)],
     check_completed = True, topics_to_check_next_round = [],
     checked_topics = {''/a''}, reported_topics = {}, timer = True,
     default_qos_profile = rclpy_defaults\<lparr>durability := VOLATILE, reliability := BEST_EFFORT,
          history := KEEP_LAST, depth := 1\<rparr>,
     subscriptions = [(''/a'', (''std_msgs'', ''String''), latched_qos\<lparr>avoid_ros_namespace_conventions := False\<rparr>)],
     log = [Info_started]\<rparr>"
  by code_simp

lemma chain_analyzed_value:
  "chain_analyzed = 
    \<lparr>important_topics = [''/b''],
     ignore_topics = [''/rosout'', ''/parameter_events''],
     topic_data = [(''/a'', \<lparr>received = False, publishers = [(''N1'', ''/'')], last_received = None\<rparr>)],
     check_completed = True, topics_to_check_next_round = [],
     checked_topics = {''/a''}, reported_topics = {''/a''}, timer = True,
     default_qos_profile = rclpy_defaults\<lparr>durability := VOLATILE, reliability := BEST_EFFORT,
          history := KEEP_LAST, depth := 1\<rparr>,
     subscriptions = [(''/a'', (''std_msgs'', ''String''), latched_qos\<lparr>avoid_ros_namespace_conventions := False\<rparr>)],
     log = [Info_started, Warn_stuck ''/a'' ''N1'', Error_no_publishers ''N1'' ''/b'',
            Debug_not_checked ''/b'', Info_next_round [''/b'']]\<rparr>"
  by code_simp

lemma chain_heard_reachable: "reachable chain_heard"
  unfolding chain_heard_def
  by (rule reachable_step[OF chain_started_reachable step_message])
     (simp add: chain_started_value)

subsection \<open>Invariants of the stores\<close>

text \<open>
  C9. In every state the node can reach, every topic with an observation has a
  subscription and is in the checked set, and the reported set is within the checked set;
  and no operation removes an element from the checked set, the reported set, the
  observation store or the set of subscribed topics. The operations are the four of
  \<open>step\<close>, each taken as a whole.
\<close>

theorem store_invariants:
  "reachable st \<Longrightarrow>
     tracked st \<subseteq> subscribed st \<and> tracked st \<subseteq> checked_topics st
     \<and> reported_topics st \<subseteq> checked_topics st
     \<and> (\<forall>st'. step st st' \<longrightarrow>
           checked_topics st \<subseteq> checked_topics st'
           \<and> reported_topics st \<subseteq> reported_topics st'
           \<and> tracked st \<subseteq> tracked st' \<and> subscribed st \<subseteq> subscribed st')"
proof -
  assume "reachable st"
  then have inv: "node_inv st" by (rule reachable_inv)
  then have "tracked st \<subseteq> subscribed st" "tracked st \<subseteq> checked_topics st"
    "reported_topics st \<subseteq> tracked st"
    by (simp_all add: node_inv_def store_inv_def)
  moreover have "grows st st'" if "step st st'" for st'
    using that inv by (rule step_grows)
  ultimately show ?thesis unfolding grows_def by blast
qed

theorem store_invariants_witness:
  "reachable chain_finished \<and> step chain_finished chain_analyzed
   \<and> tracked chain_finished = {''/a''} \<and> subscribed chain_finished = {''/a''}
   \<and> checked_topics chain_finished = {''/a''}
   \<and> reported_topics chain_finished = {} \<and> reported_topics chain_analyzed = {''/a''}
   \<and> tracked chain_finished \<subseteq> subscribed chain_finished
   \<and> tracked chain_finished \<subseteq> checked_topics chain_finished
   \<and> reported_topics chain_finished \<subseteq> checked_topics chain_finished
   \<and> checked_topics chain_finished \<subseteq> checked_topics chain_analyzed
   \<and> reported_topics chain_finished \<subseteq> reported_topics chain_analyzed"
proof -
  have s: "step chain_finished chain_analyzed"
    unfolding chain_analyzed_def by (rule step_analyze)
  have v: "tracked chain_finished = {''/a''}" "subscribed chain_finished = {''/a''}"
    "checked_topics chain_finished = {''/a''}" "reported_topics chain_finished = {}"
    "reported_topics chain_analyzed = {''/a''}"
    by (simp_all add: chain_finished_value chain_analyzed_value tracked_def subscribed_def)
  show ?thesis
    using store_invariants[OF chain_finished_reachable] s chain_finished_reachable v
    by simp
qed

subsection \<open>Received and timestamp\<close>

lemma never_unexpected_log: "never_unexpected st \<Longrightarrow> Warn_unexpected t \<notin> set (log st)"
proof -
  assume "never_unexpected st"
  then have "filter (\<lambda>x. x = Warn_unexpected t) (log st) = []"
    by (simp add: never_unexpected_def unexpected_warnings_def)
  then show ?thesis by (auto simp: filter_empty_conv)
qed

lemma obs_consistent_entry:
  "obs_consistent st \<Longrightarrow> (t, d) \<in> set (topic_data st) \<Longrightarrow> received d = (last_received d \<noteq> None)"
  by (auto simp: obs_consistent_def list_all_iff obs_ok_def)

text \<open>
  C10. In every state the node can reach, an observation is received exactly if it has a
  timestamp, and the log holds no "unexpected state" warning. \<^verbatim>\<open>check_topic\<close> creates an
  observation with received false and no timestamp; the message callback sets received
  and the timestamp in one operation; and after any operation an observation that was
  received is still there, still received and with a timestamp (a checked topic is not
  initialised again). Operations are atomic here: an analysis that reads the store while
  a callback is between its two writes is outside this model.
\<close>

theorem receipt_has_timestamp:
  "reachable st \<Longrightarrow>
     (\<forall>t d. (t, d) \<in> set (topic_data st) \<longrightarrow> received d = (last_received d \<noteq> None))
     \<and> (\<forall>t. Warn_unexpected t \<notin> set (log st))
     \<and> (\<forall>e t cls. resolve_msg_class e t = Resolved cls \<longrightarrow>
           map_of (topic_data (state_of (check_topic e t st))) t =
             Some \<lparr>received = False, publishers = [], last_received = None\<rparr>)
     \<and> (\<forall>now t. t \<in> tracked st \<longrightarrow>
           (\<exists>d'. topic_callback now t st = Returned (st\<lparr>topic_data := AList.update t d' (topic_data st)\<rparr>)
               \<and> received d' \<and> last_received d' = Some now))
     \<and> (\<forall>st' t d. step st st' \<and> map_of (topic_data st) t = Some d \<and> received d \<longrightarrow>
           (\<exists>d'. map_of (topic_data st') t = Some d' \<and> received d' \<and> last_received d' \<noteq> None))"
proof -
  assume r: "reachable st"
  then have inv: "node_inv st" by (rule reachable_inv)
  have a: "\<forall>t d. (t, d) \<in> set (topic_data st) \<longrightarrow> received d = (last_received d \<noteq> None)"
    using inv obs_consistent_entry[of st] by (simp add: node_inv_def)
  have b: "\<forall>t. Warn_unexpected t \<notin> set (log st)"
    using inv never_unexpected_log[of st] by (simp add: node_inv_def)
  have c: "\<forall>e t cls. resolve_msg_class e t = Resolved cls \<longrightarrow>
           map_of (topic_data (state_of (check_topic e t st))) t =
             Some \<lparr>received = False, publishers = [], last_received = None\<rparr>"
    by (simp add: check_topic_def Let_def AList.update_conv')
  have d: "\<forall>now t. t \<in> tracked st \<longrightarrow>
           (\<exists>d'. topic_callback now t st = Returned (st\<lparr>topic_data := AList.update t d' (topic_data st)\<rparr>)
               \<and> received d' \<and> last_received d' = Some now)"
  proof (intro allI impI)
    fix now t assume "t \<in> tracked st"
    then obtain d0 where "map_of (topic_data st) t = Some d0"
      using map_of_None_tracked[of st t] by (cases "map_of (topic_data st) t") simp_all
    then have "topic_callback now t st = Returned (st\<lparr>topic_data :=
        AList.update t (d0\<lparr>received := True, last_received := Some now\<rparr>) (topic_data st)\<rparr>)"
      by (simp add: topic_callback_def)
    then show "\<exists>d'. topic_callback now t st = Returned (st\<lparr>topic_data := AList.update t d' (topic_data st)\<rparr>)
               \<and> received d' \<and> last_received d' = Some now"
      by (intro exI[of _ "d0\<lparr>received := True, last_received := Some now\<rparr>"]) simp
  qed
  have e: "\<forall>st' t d. step st st' \<and> map_of (topic_data st) t = Some d \<and> received d \<longrightarrow>
           (\<exists>d'. map_of (topic_data st') t = Some d' \<and> received d' \<and> last_received d' \<noteq> None)"
  proof (intro allI impI)
    fix st' t d
    assume h: "step st st' \<and> map_of (topic_data st) t = Some d \<and> received d"
    then have "receipt_kept st st'" using step_grows[of st st'] inv by (simp add: grows_def)
    with h obtain d' where d': "map_of (topic_data st') t = Some d'" "received d'"
      unfolding receipt_kept_def by blast
    from h r have "reachable st'" using reachable_step by blast
    then have "obs_consistent st'" using reachable_inv by (simp add: node_inv_def)
    with d' have "last_received d' \<noteq> None"
      using obs_consistent_entry[of st' t d'] map_of_SomeD[of "topic_data st'" t d'] by simp
    with d' show "\<exists>d'. map_of (topic_data st') t = Some d' \<and> received d' \<and> last_received d' \<noteq> None"
      by blast
  qed
  from a b c d e show ?thesis by blast
qed

theorem receipt_has_timestamp_witness:
  "reachable chain_heard
   \<and> topic_data chain_heard =
        [(''/a'', \<lparr>received = True, publishers = [], last_received = Some 42\<rparr>)]
   \<and> Warn_unexpected ''/a'' \<notin> set (log chain_heard)
   \<and> step chain_heard (state_of (finish_check chain_graph chain_heard))
   \<and> (\<exists>d'. map_of (topic_data (state_of (finish_check chain_graph chain_heard))) ''/a'' = Some d'
          \<and> received d' \<and> last_received d' \<noteq> None)"
proof -
  have v: "topic_data chain_heard =
        [(''/a'', \<lparr>received = True, publishers = [], last_received = Some 42\<rparr>)]"
    by (simp add: chain_heard_def chain_started_value topic_callback_def)
  have s: "step chain_heard (state_of (finish_check chain_graph chain_heard))"
    by (rule step_finish)
  let ?d = "\<lparr>received = True, publishers = [], last_received = Some (42::nat)\<rparr>"
  let ?s = "state_of (finish_check chain_graph chain_heard)"
  have m: "map_of (topic_data chain_heard) ''/a'' = Some ?d \<and> received ?d"
    by (simp add: v)
  note T = receipt_has_timestamp[OF chain_heard_reachable]
  from T have u: "Warn_unexpected ''/a'' \<notin> set (log chain_heard)" by blast
  from T have "step chain_heard ?s \<and> map_of (topic_data chain_heard) ''/a'' = Some ?d
        \<and> received ?d \<longrightarrow>
      (\<exists>d'. map_of (topic_data ?s) ''/a'' = Some d' \<and> received d' \<and> last_received d' \<noteq> None)"
    by blast
  with s m have "\<exists>d'. map_of (topic_data ?s) ''/a'' = Some d' \<and> received d'
      \<and> last_received d' \<noteq> None"
    by blast
  with chain_heard_reachable v u s show ?thesis by blast
qed

subsection \<open>The profile of a subscription\<close>

text \<open>
  C7. In every state the node can reach, \<^verbatim>\<open>check_topic\<close> either creates no subscription
  or creates exactly one, for its topic, with the profile of \<^verbatim>\<open>get_publisher_qos\<close>. When
  the topic has no publisher that profile is the node's default profile, which has
  volatile durability, best-effort reliability, keep-last history and depth 1; otherwise
  its durability, reliability, history, depth, lifespan, deadline, liveliness and
  liveliness lease duration are those of the first publisher's profile.
\<close>

theorem subscription_profile:
  "reachable st \<Longrightarrow>
     (subscriptions (state_of (check_topic e topic st)) = subscriptions st
        \<or> (\<exists>cls. subscriptions (state_of (check_topic e topic st)) =
                    subscriptions st @ [(topic, cls, get_publisher_qos e topic st)]))
     \<and> (get_publishers_info_by_topic e topic = [] \<longrightarrow>
           get_publisher_qos e topic st = default_qos_profile st
           \<and> durability (get_publisher_qos e topic st) = VOLATILE
           \<and> reliability (get_publisher_qos e topic st) = BEST_EFFORT
           \<and> history (get_publisher_qos e topic st) = KEEP_LAST
           \<and> depth (get_publisher_qos e topic st) = 1)
     \<and> (\<forall>p ps. get_publishers_info_by_topic e topic = p # ps \<longrightarrow>
           durability (get_publisher_qos e topic st) = durability (qos_profile p)
           \<and> reliability (get_publisher_qos e topic st) = reliability (qos_profile p)
           \<and> history (get_publisher_qos e topic st) = history (qos_profile p)
           \<and> depth (get_publisher_qos e topic st) = depth (qos_profile p)
           \<and> lifespan (get_publisher_qos e topic st) = lifespan (qos_profile p)
           \<and> deadline (get_publisher_qos e topic st) = deadline (qos_profile p)
           \<and> liveliness (get_publisher_qos e topic st) = liveliness (qos_profile p)
           \<and> liveliness_lease_duration (get_publisher_qos e topic st)
               = liveliness_lease_duration (qos_profile p))"
proof -
  assume "reachable st"
  then have "default_profile_fixed st" using reachable_inv by (simp add: node_inv_def)
  then have a: "get_publishers_info_by_topic e topic = [] \<longrightarrow>
           get_publisher_qos e topic st = default_qos_profile st
           \<and> durability (get_publisher_qos e topic st) = VOLATILE
           \<and> reliability (get_publisher_qos e topic st) = BEST_EFFORT
           \<and> history (get_publisher_qos e topic st) = KEEP_LAST
           \<and> depth (get_publisher_qos e topic st) = 1"
    by (simp add: get_publisher_qos_def default_profile_fixed_def)
  have b: "subscriptions (state_of (check_topic e topic st)) = subscriptions st
        \<or> (\<exists>cls. subscriptions (state_of (check_topic e topic st)) =
                    subscriptions st @ [(topic, cls, get_publisher_qos e topic st)])"
    using check_topic_cases[of e topic st] by (auto simp: emit_def)
  have c: "\<forall>p ps. get_publishers_info_by_topic e topic = p # ps \<longrightarrow>
           durability (get_publisher_qos e topic st) = durability (qos_profile p)
           \<and> reliability (get_publisher_qos e topic st) = reliability (qos_profile p)
           \<and> history (get_publisher_qos e topic st) = history (qos_profile p)
           \<and> depth (get_publisher_qos e topic st) = depth (qos_profile p)
           \<and> lifespan (get_publisher_qos e topic st) = lifespan (qos_profile p)
           \<and> deadline (get_publisher_qos e topic st) = deadline (qos_profile p)
           \<and> liveliness (get_publisher_qos e topic st) = liveliness (qos_profile p)
           \<and> liveliness_lease_duration (get_publisher_qos e topic st)
               = liveliness_lease_duration (qos_profile p)"
    by (simp add: get_publisher_qos_def Let_def)
  from a b c show ?thesis by blast
qed

theorem subscription_profile_witness:
  "reachable (checker_on chain_graph [''/a'', ''/b''])
   \<and> get_publishers_info_by_topic chain_graph ''/b'' = []
   \<and> get_publishers_info_by_topic chain_graph ''/a'' = [publisher_at ''N1'']
   \<and> subscriptions (state_of (check_topic chain_graph ''/b''
          (checker_on chain_graph [''/a'', ''/b'']))) =
        [(''/b'', (''std_msgs'', ''String''),
          rclpy_defaults\<lparr>durability := VOLATILE, reliability := BEST_EFFORT,
            history := KEEP_LAST, depth := 1\<rparr>)]
   \<and> subscriptions (state_of (check_topic chain_graph ''/a''
          (checker_on chain_graph [''/a'', ''/b'']))) =
        [(''/a'', (''std_msgs'', ''String''),
          latched_qos\<lparr>avoid_ros_namespace_conventions := False\<rparr>)]
   \<and> durability (get_publisher_qos chain_graph ''/b'' (checker_on chain_graph [''/a'', ''/b''])) = VOLATILE
   \<and> depth (get_publisher_qos chain_graph ''/a'' (checker_on chain_graph [''/a'', ''/b''])) = 7"
proof -
  have r: "reachable (checker_on chain_graph [''/a'', ''/b''])" by (rule reachable_init)
  have b: "get_publishers_info_by_topic chain_graph ''/b'' = []"
    and a: "get_publishers_info_by_topic chain_graph ''/a'' = [publisher_at ''N1'']"
    by (simp_all add: chain_graph_def)
  have sb: "subscriptions (state_of (check_topic chain_graph ''/b''
          (checker_on chain_graph [''/a'', ''/b'']))) =
        [(''/b'', (''std_msgs'', ''String''),
          rclpy_defaults\<lparr>durability := VOLATILE, reliability := BEST_EFFORT,
            history := KEEP_LAST, depth := 1\<rparr>)]"
    by code_simp
  have sa: "subscriptions (state_of (check_topic chain_graph ''/a''
          (checker_on chain_graph [''/a'', ''/b'']))) =
        [(''/a'', (''std_msgs'', ''String''),
          latched_qos\<lparr>avoid_ros_namespace_conventions := False\<rparr>)]"
    by code_simp
  from subscription_profile[OF r, of chain_graph "''/b''"] b
  have db: "durability (get_publisher_qos chain_graph ''/b''
      (checker_on chain_graph [''/a'', ''/b''])) = VOLATILE"
    by blast
  from subscription_profile[OF r, of chain_graph "''/a''"] a
  have "depth (get_publisher_qos chain_graph ''/a'' (checker_on chain_graph [''/a'', ''/b'']))
      = depth (qos_profile (publisher_at ''N1''))"
    by blast
  then have da: "depth (get_publisher_qos chain_graph ''/a''
      (checker_on chain_graph [''/a'', ''/b''])) = 7"
    by (simp add: publisher_at_def latched_qos_def)
  from r a b sa sb da db show ?thesis by blast
qed

subsection \<open>One entry of the store under analysis\<close>

lemma key_unique:
  "distinct (map fst xs) \<Longrightarrow> (t, d) \<in> set xs \<Longrightarrow> (t, d') \<in> set xs \<Longrightarrow> d = d'"
  by (rule eq_key_imp_eq_value)

lemma newly_stuck_entry:
  assumes "distinct (map fst (topic_data st))" and "(t, d) \<in> set (topic_data st)"
  shows "(\<exists>d'. (t, d') \<in> set (topic_data st) \<and> newly_stuck st (t, d')) = newly_stuck st (t, d)"
  using assms key_unique[of "topic_data st" t d] by blast

lemma unexpected_entry:
  assumes "distinct (map fst (topic_data st))" and "(t, d) \<in> set (topic_data st)"
  shows "(\<exists>d'. (t, d') \<in> set (topic_data st) \<and> received d' \<and> last_received d' = None)
           = (received d \<and> last_received d = None)"
  using assms key_unique[of "topic_data st" t d] by blast

lemma stuck_list_member:
  "t \<in> set (stuck_list st) \<longleftrightarrow> (\<exists>d. (t, d) \<in> set (topic_data st) \<and> newly_stuck st (t, d))"
  by (auto simp: stuck_list_def intro: rev_image_eqI)

lemma classify_loop_classified:
  "distinct (map fst (topic_data st)) \<Longrightarrow>
   classify_loop (topic_data st) (st, []) = (classified st, stuck_list st)"
  by (simp add: classify_loop_closed classified_def stuck_list_def)

lemma analyze_trace_warnings:
  assumes "distinct (map fst (topic_data st))"
  shows "stuck_warnings t (log (state_of (analyze_trace e st))) = stuck_warnings t (log (classified st))"
    and "unexpected_warnings t (log (state_of (analyze_trace e st)))
           = unexpected_warnings t (log (classified st))"
proof -
  have "verdicts (log (state_of (analyze_trace e st))) = verdicts (log (classified st))"
    using analyze_trace_traced[OF assms, of e] by (simp add: traced_def)
  then show "stuck_warnings t (log (state_of (analyze_trace e st))) = stuck_warnings t (log (classified st))"
    "unexpected_warnings t (log (state_of (analyze_trace e st)))
           = unexpected_warnings t (log (classified st))"
    using stuck_warnings_verdicts[of t] unexpected_warnings_verdicts[of t] by metis+
qed

lemma classified_entry:
  assumes d: "distinct (map fst (topic_data st))" and m: "(t, d) \<in> set (topic_data st)"
  shows "t \<in> set (stuck_list st) \<longleftrightarrow> newly_stuck st (t, d)"
    and "t \<in> reported_topics (classified st) - reported_topics st \<longleftrightarrow> newly_stuck st (t, d)"
    and "stuck_warnings t (log (classified st)) =
           stuck_warnings t (log st) + (if newly_stuck st (t, d) then 1 else 0)"
    and "unexpected_warnings t (log (classified st)) =
           unexpected_warnings t (log st) + (if received d \<and> last_received d = None then 1 else 0)"
proof -
  show "t \<in> set (stuck_list st) \<longleftrightarrow> newly_stuck st (t, d)"
    by (simp add: stuck_list_member newly_stuck_entry[OF d m])
  show "t \<in> reported_topics (classified st) - reported_topics st \<longleftrightarrow> newly_stuck st (t, d)"
    using newly_stuck_unreported[of st t d]
    by (auto simp: classified_reported newly_stuck_entry[OF d m])
  show "stuck_warnings t (log (classified st)) =
           stuck_warnings t (log st) + (if newly_stuck st (t, d) then 1 else 0)"
    by (simp add: classified_stuck_warnings[OF d] newly_stuck_entry[OF d m])
  show "unexpected_warnings t (log (classified st)) =
           unexpected_warnings t (log st) + (if received d \<and> last_received d = None then 1 else 0)"
    by (simp add: classified_unexpected_warnings[OF d] unexpected_entry[OF d m])
qed

subsection \<open>A run passes through reachable states\<close>

lemma deliver_reachable: "reachable st \<Longrightarrow> reachable (deliver ms st)"
proof (induction ms arbitrary: st)
  case Nil
  then show ?case by simp
next
  case (Cons m ms)
  obtain topic now where m: "m = (topic, now)" by (cases m)
  show ?case
  proof (cases "topic \<in> fst ` set (subscriptions st)")
    case True
    then have "step st (state_of (topic_callback now topic st))" by (rule step_message)
    with Cons.prems have "reachable (state_of (topic_callback now topic st))"
      by (rule reachable_step)
    from Cons.IH[OF this] True show ?thesis by (simp add: m)
  next
    case False
    with Cons show ?thesis by (simp add: m)
  qed
qed

lemma run_reachable:
  "reachable st \<longrightarrow> reachable (result_state (check_topics rs st))"
  "reachable st \<longrightarrow> reachable (result_state (analyze_results rs e st))"
proof (induction rs st and rs e st rule: check_topics_analyze_results.induct)
  case (1 st)
  show ?case by simp
next
  case (2 r rs st)
  show ?case
  proof
    assume r0: "reachable st"
    have r1: "reachable (state_of (check_topics_start (graph r) st))"
      by (rule reachable_step[OF r0 step_start])
    show "reachable (result_state (check_topics (r # rs) st))"
    proof (cases "check_topics_start (graph r) st")
      case (Raised err s)
      with r1 show ?thesis by simp
    next
      case started: (Returned s1)
      let ?s2 = "deliver (arrivals r) s1"
      have r2: "reachable ?s2" using r1 started by (simp add: deliver_reachable)
      have r3: "reachable (state_of (finish_check (graph r) ?s2))"
        by (rule reachable_step[OF r2 step_finish])
      show ?thesis
      proof (cases "finish_check (graph r) ?s2")
        case (Returned s)
        with r3 2[OF started Returned] started show ?thesis by simp
      next
        case (Raised err s)
        with r3 started show ?thesis by simp
      qed
    qed
  qed
next
  case (3 rs e st)
  show ?case
  proof
    assume r0: "reachable st"
    have r1: "reachable (analyze_step e st)" by (rule reachable_step[OF r0 step_analyze])
    show "reachable (result_state (analyze_results rs e st))"
    proof (cases "analyze_trace e st")
      case (Raised err s)
      with r1 show ?thesis by (simp add: analyze_step_def)
    next
      case (Returned s)
      show ?thesis
      proof (cases "topics_to_check_next_round s \<noteq> []")
        case True
        with Returned r1 have "reachable (next_round s)" by (simp add: analyze_step_def)
        with 3[OF Returned True] Returned True show ?thesis by simp
      next
        case False
        with Returned r1 show ?thesis by (simp add: analyze_step_def)
      qed
    qed
  qed
qed

lemma chain_round2_reachable: "reachable chain_round2"
  unfolding chain_round2_def chain_analyzed_def
  by (intro reachable_step[OF _ step_analyze] reachable_step[OF _ step_finish]
        reachable_step[OF _ step_start] chain_finished_reachable)

subsection \<open>Stuck topics are reported once\<close>

text \<open>
  C1. In \<^verbatim>\<open>analyze_results\<close>, for a tracked topic with received false: the topic is put on
  the stuck work list, is newly added to the reported set, and gets one more stuck warning
  in the log (after the classifying loop and after the whole analysis with its tracing),
  exactly if it is not ignore-listed, has exactly one publisher and was not reported
  before; otherwise it gets none. And in every state the node can reach, and in the state
  a run of any number of rounds ends in, the log holds exactly one stuck warning for each
  reported topic and none for any other: a topic stuck round after round is warned about
  once in total.
\<close>

theorem stuck_reported_once:
  "(distinct (map fst (topic_data st)) \<and> (t, d) \<in> set (topic_data st) \<and> \<not> received d \<longrightarrow>
      (case classify_loop (topic_data st) (st, []) of
         (st1, stuck_topics) \<Rightarrow>
           (t \<in> set stuck_topics \<longleftrightarrow> stuck_criteria st t d)
           \<and> (t \<in> reported_topics st1 - reported_topics st \<longleftrightarrow> stuck_criteria st t d)
           \<and> stuck_warnings t (log st1) =
               stuck_warnings t (log st) + (if stuck_criteria st t d then 1 else 0))
      \<and> stuck_warnings t (log (state_of (analyze_trace e st))) =
          stuck_warnings t (log st) + (if stuck_criteria st t d then 1 else 0))
   \<and> (reachable st \<longrightarrow>
        stuck_warnings t (log st) = (if t \<in> reported_topics st then 1 else 0)
        \<and> stuck_warnings t (log (result_state (check_topics rs st))) =
            (if t \<in> reported_topics (result_state (check_topics rs st)) then 1 else 0))"
proof (intro conjI impI)
  assume h: "distinct (map fst (topic_data st)) \<and> (t, d) \<in> set (topic_data st) \<and> \<not> received d"
  then have dk: "distinct (map fst (topic_data st))" and m: "(t, d) \<in> set (topic_data st)"
    and n: "newly_stuck st (t, d) = stuck_criteria st t d"
    by (simp_all add: newly_stuck_def)
  show "case classify_loop (topic_data st) (st, []) of
         (st1, stuck_topics) \<Rightarrow>
           (t \<in> set stuck_topics \<longleftrightarrow> stuck_criteria st t d)
           \<and> (t \<in> reported_topics st1 - reported_topics st \<longleftrightarrow> stuck_criteria st t d)
           \<and> stuck_warnings t (log st1) =
               stuck_warnings t (log st) + (if stuck_criteria st t d then 1 else 0)"
    using classified_entry(1,2,3)[OF dk m]
    by (simp add: classify_loop_classified[OF dk] n)
  show "stuck_warnings t (log (state_of (analyze_trace e st))) =
          stuck_warnings t (log st) + (if stuck_criteria st t d then 1 else 0)"
    using classified_entry(3)[OF dk m] by (simp add: analyze_trace_warnings(1)[OF dk] n)
next
  assume r: "reachable st"
  then show "stuck_warnings t (log st) = (if t \<in> reported_topics st then 1 else 0)"
    using reachable_inv[of st] by (simp add: node_inv_def warned_once_def)
  from r have "reachable (result_state (check_topics rs st))"
    using run_reachable(1)[of st rs] by simp
  then show "stuck_warnings t (log (result_state (check_topics rs st))) =
            (if t \<in> reported_topics (result_state (check_topics rs st)) then 1 else 0)"
    using reachable_inv[of "result_state (check_topics rs st)"]
    by (simp add: node_inv_def warned_once_def)
qed

theorem stuck_reported_once_witness:
  "distinct (map fst (topic_data chain_finished))
   \<and> (''/a'', \<lparr>received = False, publishers = [(''N1'', ''/'')], last_received = None\<rparr>)
        \<in> set (topic_data chain_finished)
   \<and> stuck_criteria chain_finished ''/a''
        \<lparr>received = False, publishers = [(''N1'', ''/'')], last_received = None\<rparr>
   \<and> stuck_warnings ''/a'' (log chain_finished) = 0
   \<and> stuck_warnings ''/a'' (log (state_of (analyze_trace chain_graph chain_finished))) = 1
   \<and> reachable chain_round2
   \<and> ''/a'' \<in> reported_topics chain_round2
   \<and> stuck_warnings ''/a'' (log chain_round2) = 1"
proof -
  let ?d = "\<lparr>received = False, publishers = [(''N1'', ''/'')], last_received = None\<rparr>"
  have td: "topic_data chain_finished = [(''/a'', ?d)]" by code_simp
  have a: "distinct (map fst (topic_data chain_finished))"
    and b: "(''/a'', ?d) \<in> set (topic_data chain_finished)"
    and c: "\<not> received ?d"
    by (simp_all add: td)
  have crit: "stuck_criteria chain_finished ''/a'' ?d" by code_simp
  have z: "stuck_warnings ''/a'' (log chain_finished) = 0" by code_simp
  have rep: "''/a'' \<in> reported_topics chain_round2" by code_simp
  from stuck_reported_once[of chain_finished "''/a''" ?d chain_graph "[]"] a b c
  have "stuck_warnings ''/a'' (log (state_of (analyze_trace chain_graph chain_finished))) =
          stuck_warnings ''/a'' (log chain_finished)
            + (if stuck_criteria chain_finished ''/a'' ?d then 1 else 0)"
    by blast
  with crit z
  have one: "stuck_warnings ''/a'' (log (state_of (analyze_trace chain_graph chain_finished))) = 1"
    by simp
  from stuck_reported_once[of chain_round2 "''/a''" ?d chain_graph "[]"] chain_round2_reachable
  have "stuck_warnings ''/a'' (log chain_round2)
      = (if ''/a'' \<in> reported_topics chain_round2 then 1 else 0)"
    by blast
  with rep have two: "stuck_warnings ''/a'' (log chain_round2) = 1" by simp
  from a b crit z one chain_round2_reachable rep two show ?thesis by blast
qed

subsection \<open>The unexpected-state warning\<close>

text \<open>
  C5, as amended. In \<^verbatim>\<open>analyze_results\<close> a tracked topic gets an "unexpected state"
  warning exactly if its observation has received true and no timestamp. A topic not
  received that does not meet the stuck criteria (zero or several publishers,
  ignore-listed, or reported before) gets no warning of either kind.
\<close>

theorem unexpected_state_warning:
  "distinct (map fst (topic_data st)) \<and> (t, d) \<in> set (topic_data st) \<longrightarrow>
     unexpected_warnings t (log (state_of (analyze_trace e st))) =
       unexpected_warnings t (log st) + (if received d \<and> last_received d = None then 1 else 0)
     \<and> (\<not> received d \<and> \<not> stuck_criteria st t d \<longrightarrow>
          stuck_warnings t (log (state_of (analyze_trace e st))) = stuck_warnings t (log st)
          \<and> unexpected_warnings t (log (state_of (analyze_trace e st)))
              = unexpected_warnings t (log st))"
proof (intro impI)
  assume h: "distinct (map fst (topic_data st)) \<and> (t, d) \<in> set (topic_data st)"
  then have dk: "distinct (map fst (topic_data st))" and m: "(t, d) \<in> set (topic_data st)"
    by simp_all
  show "unexpected_warnings t (log (state_of (analyze_trace e st))) =
       unexpected_warnings t (log st) + (if received d \<and> last_received d = None then 1 else 0)
     \<and> (\<not> received d \<and> \<not> stuck_criteria st t d \<longrightarrow>
          stuck_warnings t (log (state_of (analyze_trace e st))) = stuck_warnings t (log st)
          \<and> unexpected_warnings t (log (state_of (analyze_trace e st)))
              = unexpected_warnings t (log st))"
    using classified_entry(3,4)[OF dk m]
    by (simp add: analyze_trace_warnings[OF dk] newly_stuck_def)
qed

theorem unexpected_state_warning_witness:
  "distinct (map fst (topic_data odd_state))
   \<and> (''/a'', \<lparr>received = True, publishers = [], last_received = None\<rparr>)
        \<in> set (topic_data odd_state)
   \<and> unexpected_warnings ''/a'' (log odd_state) = 0
   \<and> unexpected_warnings ''/a'' (log (state_of (analyze_trace chain_graph odd_state))) = 1"
proof -
  let ?d = "\<lparr>received = True, publishers = [], last_received = None :: nat option\<rparr>"
  have td: "topic_data odd_state = [(''/a'', ?d)]" by (simp add: odd_state_def)
  have a: "distinct (map fst (topic_data odd_state))"
    and b: "(''/a'', ?d) \<in> set (topic_data odd_state)"
    by (simp_all add: td)
  have z: "unexpected_warnings ''/a'' (log odd_state) = 0" by code_simp
  from unexpected_state_warning[of odd_state "''/a''" ?d chain_graph] a b
  have "unexpected_warnings ''/a'' (log (state_of (analyze_trace chain_graph odd_state))) =
       unexpected_warnings ''/a'' (log odd_state)
         + (if received ?d \<and> last_received ?d = None then 1 else 0)"
    by blast
  with z have "unexpected_warnings ''/a'' (log (state_of (analyze_trace chain_graph odd_state))) = 1"
    by simp
  with a b z show ?thesis by blast
qed

text \<open>
  The claim C5 as written fails for /b checked as an important topic: it is tracked, not
  received, has no publisher, does not meet the stuck criteria, and the analysis logs
  nothing.
\<close>

theorem unclassified_topic_counterexample:
  "map_of (topic_data silent_finished) ''/b''
     = Some \<lparr>received = False, publishers = [], last_received = None\<rparr>
   \<and> \<not> stuck_criteria silent_finished ''/b''
         \<lparr>received = False, publishers = [], last_received = None\<rparr>
   \<and> log silent_finished = [Info_started]
   \<and> log (state_of (analyze_trace chain_graph silent_finished)) = [Info_started]"
  by code_simp

subsection \<open>A topic whose type cannot be resolved\<close>

lemma check_topic_failed:
  "resolve_msg_class e t = Skipped entry \<Longrightarrow> check_topic e t st = Returned (emit entry st)"
  by (simp add: check_topic_def)

lemma check_topic_unresolved:
  assumes "\<forall>cls. resolve_msg_class e t \<noteq> Resolved cls"
  shows "tracked (state_of (check_topic e t st)) = tracked st"
    and "subscribed (state_of (check_topic e t st)) = subscribed st"
  using assms check_topic_cases[of e t st] by (auto simp: emit_def)

lemma check_one_skips:
  assumes "t \<notin> tracked st" and "t \<notin> subscribed st"
    and "t \<in> checked_topics st \<or> (\<forall>cls. resolve_msg_class e t \<noteq> Resolved cls)"
  shows "t \<notin> tracked (state_of (check_one e u st))"
    and "t \<notin> subscribed (state_of (check_one e u st))"
    and "t \<in> checked_topics (state_of (check_one e u st))
           \<or> (\<forall>cls. resolve_msg_class e t \<noteq> Resolved cls)"
proof -
  have c: "t \<notin> tracked (state_of (check_topic e u st))
      \<and> t \<notin> subscribed (state_of (check_topic e u st))"
    if "u \<notin> checked_topics st"
  proof (cases "u = t")
    case True
    with that assms(3) have "\<forall>cls. resolve_msg_class e t \<noteq> Resolved cls" by blast
    from check_topic_unresolved[OF this, of st] assms(1,2) True show ?thesis by simp
  next
    case False
    with assms(1,2) check_topic_sets[of e u st] show ?thesis by auto
  qed
  from check_one_state[of u st e]
  have "state_of (check_one e u st) = st
      \<or> (u \<notin> checked_topics st \<and> state_of (check_one e u st) =
            (state_of (check_topic e u st))\<lparr>checked_topics := insert u (checked_topics st)\<rparr>)"
    by auto
  then show "t \<notin> tracked (state_of (check_one e u st))"
    and "t \<notin> subscribed (state_of (check_one e u st))"
    using assms(1,2) c by auto
  show "t \<in> checked_topics (state_of (check_one e u st))
           \<or> (\<forall>cls. resolve_msg_class e t \<noteq> Resolved cls)"
    using assms(3) check_one_checked(1)[of st e u] by blast
qed

lemma check_topics_loop_skips:
  assumes "t \<notin> tracked st" and "t \<notin> subscribed st"
    and "t \<in> checked_topics st \<or> (\<forall>cls. resolve_msg_class e t \<noteq> Resolved cls)"
  shows "t \<notin> tracked (state_of (check_topics_loop e ts st))
     \<and> t \<notin> subscribed (state_of (check_topics_loop e ts st))"
proof -
  let ?P = "\<lambda>s. t \<notin> tracked s \<and> t \<notin> subscribed s
      \<and> (t \<in> checked_topics s \<or> (\<forall>cls. resolve_msg_class e t \<noteq> Resolved cls))"
  have "?P (state_of (check_topics_loop e ts st))"
  proof (rule check_topics_loop_inv[where P = ?P])
    fix u and s :: checker
    assume "?P s"
    then show "?P (state_of (check_one e u s))"
      using check_one_skips[of t s e u] by blast
  next
    show "?P st" using assms by simp
  qed
  then show ?thesis by simp
qed

lemma check_one_log: "x \<in> set (log st) \<Longrightarrow> x \<in> set (log (state_of (check_one e t st)))"
  using check_one_state[of t st e] check_topic_cases[of e t st] by (auto simp: emit_def)

lemma check_topics_loop_log:
  "x \<in> set (log st) \<Longrightarrow> x \<in> set (log (state_of (check_topics_loop e ts st)))"
  by (rule check_topics_loop_inv[where P = "\<lambda>s. x \<in> set (log s)"])
     (simp_all add: check_one_log)

lemma check_topics_loop_logs_failure:
  "t \<in> set ts \<Longrightarrow> t \<notin> checked_topics st \<Longrightarrow> resolve_msg_class e t = Skipped entry \<Longrightarrow>
   check_topics_loop e ts st = Returned s \<Longrightarrow> entry \<in> set (log s)"
proof (induction ts arbitrary: st)
  case Nil
  then show ?case by simp
next
  case (Cons u ts)
  from Cons.prems(4) obtain s1 where s1: "check_one e u st = Returned s1"
    and rest: "check_topics_loop e ts s1 = Returned s"
    by (cases "check_one e u st") simp_all
  show ?case
  proof (cases "u = t")
    case True
    have "check_one e t st = Returned ((emit entry st)
        \<lparr>checked_topics := insert t (checked_topics st)\<rparr>)"
      using Cons.prems(2,3) by (simp add: check_one_def check_topic_failed emit_def)
    with s1 True have "entry \<in> set (log s1)" by (auto simp: emit_def)
    then have "entry \<in> set (log (state_of (check_topics_loop e ts s1)))"
      by (rule check_topics_loop_log)
    with rest show ?thesis by simp
  next
    case False
    with Cons.prems have t: "t \<in> set ts" by simp
    have "t \<notin> checked_topics s1"
      using check_one_checked(3)[OF s1] Cons.prems(2) False by simp
    from Cons.IH[OF t this Cons.prems(3) rest] show ?thesis .
  qed
qed

lemma start_given_up: "given_up t st \<Longrightarrow> given_up t (state_of (check_topics_start e st))"
proof -
  assume g: "given_up t st"
  let ?s0 = "st\<lparr>check_completed := False\<rparr>"
  have "t \<notin> tracked (state_of (check_topics_loop e (important_topics st) ?s0))
      \<and> t \<notin> subscribed (state_of (check_topics_loop e (important_topics st) ?s0))"
    using g by (intro check_topics_loop_skips) (simp_all add: given_up_def)
  moreover have "t \<in> checked_topics (state_of (check_topics_start e st))"
    using g start_checked(1)[of st e] by (auto simp: given_up_def)
  ultimately show ?thesis by (simp add: given_up_def start_tracked)
qed

lemma step_given_up: "step st st' \<Longrightarrow> node_inv st \<Longrightarrow> given_up t st \<Longrightarrow> given_up t st'"
proof (induction rule: step.induct)
  case (step_start st e)
  then show ?case by (simp add: start_given_up)
next
  case (step_message topic st now)
  then show ?case by (simp add: given_up_def)
next
  case (step_finish st e)
  then show ?case by (simp add: given_up_def)
next
  case (step_analyze st e)
  then have "distinct (map fst (topic_data st))" by (simp add: node_inv_def store_inv_def)
  from analyze_step_fields[OF this, of e] step_analyze show ?case
    by (simp add: given_up_def tracked_def subscribed_def)
qed

lemma steps_given_up:
  "step\<^sup>*\<^sup>* st st' \<Longrightarrow> reachable st \<Longrightarrow> given_up t st \<Longrightarrow> reachable st' \<and> given_up t st'"
proof (induction rule: rtranclp_induct)
  case base
  then show ?case by simp
next
  case (step y z)
  then have "reachable y" "given_up t y" by simp_all
  with step.hyps(2) show ?case
    using reachable_step[of y z] step_given_up[of y z t] reachable_inv[of y] by blast
qed

text \<open>
  A type whose package part is empty makes the module name relative: the import raises
  TypeError, no \<^verbatim>\<open>except\<close> clause catches it, and \<^verbatim>\<open>check_topics\<close> ends with the
  exception before it logs anything and before \<^verbatim>\<open>checked_topics.add\<close>.
\<close>

lemma relative_type_raises:
  "resolve_msg_class relative_graph ''/a'' = Uncaught TypeError
   \<and> (case check_topics [\<lparr>graph = relative_graph, arrivals = []\<rparr>]
               (checker_on relative_graph [''/a'']) of
        Crashed err s \<Rightarrow>
          err = TypeError \<and> ''/a'' \<notin> checked_topics s \<and> topic_data s = []
            \<and> log s = [Info_started]
      | _ \<Rightarrow> False)"
  by code_simp

text \<open>
  C3, as amended. When type resolution for an important topic that was not checked before
  fails in a way \<^verbatim>\<open>check_topic\<close> handles (no type, or a type that is malformed or cannot
  be imported: its warning and error returns), the round's subscribing step creates no
  observation and no subscription for the topic. When that step completes, the failure is
  in the log and the topic is recorded as checked all the same. So in every later state
  the topic is still checked and still without observation and subscription, and a
  further round leaves it so, whatever the graph then is and even with the topic put back
  among the important topics: it is never tried again.
\<close>

theorem failed_topic_is_checked:
  assumes "reachable st" and "resolve_msg_class e t = Skipped entry"
    and "t \<in> set (important_topics st)" and "t \<notin> checked_topics st"
    and "t \<notin> tracked st" and "t \<notin> subscribed st"
  shows "t \<notin> tracked (state_of (check_topics_start e st))
     \<and> t \<notin> subscribed (state_of (check_topics_start e st))
     \<and> (\<forall>st1. check_topics_start e st = Returned st1 \<longrightarrow>
           entry \<in> set (log st1) \<and> t \<in> checked_topics st1
           \<and> (\<forall>s. step\<^sup>*\<^sup>* st1 s \<longrightarrow>
                 t \<in> checked_topics s \<and> t \<notin> tracked s \<and> t \<notin> subscribed s
                 \<and> (\<forall>e' ts.
                       t \<notin> tracked (state_of
                             (check_topics_start e' (s\<lparr>important_topics := ts\<rparr>)))
                       \<and> t \<notin> subscribed (state_of
                             (check_topics_start e' (s\<lparr>important_topics := ts\<rparr>))))))"
proof -
  let ?s0 = "st\<lparr>check_completed := False\<rparr>"
  have a: "t \<notin> tracked (state_of (check_topics_start e st))
      \<and> t \<notin> subscribed (state_of (check_topics_start e st))"
    using assms check_topics_loop_skips[of t ?s0 e "important_topics st"]
    by (simp add: start_tracked)
  have r: "reachable (state_of (check_topics_start e st))"
    using assms(1) step_start by (rule reachable_step)
  have b: "entry \<in> set (log st1) \<and> t \<in> checked_topics st1
           \<and> (\<forall>s. step\<^sup>*\<^sup>* st1 s \<longrightarrow>
                 t \<in> checked_topics s \<and> t \<notin> tracked s \<and> t \<notin> subscribed s
                 \<and> (\<forall>e' ts.
                       t \<notin> tracked (state_of
                             (check_topics_start e' (s\<lparr>important_topics := ts\<rparr>)))
                       \<and> t \<notin> subscribed (state_of
                             (check_topics_start e' (s\<lparr>important_topics := ts\<rparr>)))))"
    if ret: "check_topics_start e st = Returned st1" for st1
  proof -
    from ret obtain s' where s': "check_topics_loop e (important_topics st) ?s0 = Returned s'"
      and st1: "st1 = s'\<lparr>timer := True\<rparr>"
      by (cases "check_topics_loop e (important_topics st) ?s0")
         (auto simp: check_topics_start_def)
    have lg: "entry \<in> set (log st1)"
      using check_topics_loop_logs_failure[OF assms(3) _ assms(2) s'] assms(4) st1 by simp
    have ck: "t \<in> checked_topics st1" using start_checked(2)[OF ret] assms(3) by simp
    have g: "given_up t st1" using a ck ret by (simp add: given_up_def)
    have r1: "reachable st1" using r ret by simp
    have d: "t \<in> checked_topics s \<and> t \<notin> tracked s \<and> t \<notin> subscribed s
                 \<and> (\<forall>e' ts.
                       t \<notin> tracked (state_of
                             (check_topics_start e' (s\<lparr>important_topics := ts\<rparr>)))
                       \<and> t \<notin> subscribed (state_of
                             (check_topics_start e' (s\<lparr>important_topics := ts\<rparr>))))"
      if "step\<^sup>*\<^sup>* st1 s" for s
    proof -
      from steps_given_up[OF that r1 g] have gs: "given_up t s" by simp
      then have "given_up t (s\<lparr>important_topics := ts\<rparr>)" for ts by (simp add: given_up_def)
      then have "given_up t (state_of (check_topics_start e' (s\<lparr>important_topics := ts\<rparr>)))"
        for e' ts
        by (rule start_given_up)
      with gs show ?thesis by (simp add: given_up_def)
    qed
    from lg ck d show ?thesis by blast
  qed
  from a b show ?thesis by blast
qed

theorem failed_topic_is_checked_witness:
  "reachable (checker_on untyped_graph [''/a''])
   \<and> resolve_msg_class untyped_graph ''/a'' = Skipped (Warn_no_type ''/a'')
   \<and> ''/a'' \<in> set (important_topics (checker_on untyped_graph [''/a'']))
   \<and> ''/a'' \<notin> checked_topics (checker_on untyped_graph [''/a''])
   \<and> ''/a'' \<notin> tracked (checker_on untyped_graph [''/a''])
   \<and> ''/a'' \<notin> subscribed (checker_on untyped_graph [''/a''])
   \<and> check_topics_start untyped_graph (checker_on untyped_graph [''/a''])
        = Returned untyped_started
   \<and> ''/a'' \<notin> tracked untyped_started \<and> ''/a'' \<notin> subscribed untyped_started
   \<and> Warn_no_type ''/a'' \<in> set (log untyped_started)
   \<and> ''/a'' \<in> checked_topics untyped_started
   \<and> ''/a'' \<notin> tracked untyped_retried \<and> ''/a'' \<notin> subscribed untyped_retried"
proof -
  let ?st = "checker_on untyped_graph [''/a'']"
  have h: "reachable ?st" "resolve_msg_class untyped_graph ''/a'' = Skipped (Warn_no_type ''/a'')"
    "''/a'' \<in> set (important_topics ?st)" "''/a'' \<notin> checked_topics ?st"
    "''/a'' \<notin> tracked ?st" "''/a'' \<notin> subscribed ?st"
    by (rule reachable_init, code_simp,
        simp_all add: checker_on_def init_def tracked_def subscribed_def)
  have "case check_topics_start untyped_graph ?st of
          Returned s \<Rightarrow> True | Raised err s \<Rightarrow> False"
    by code_simp
  then have ret: "check_topics_start untyped_graph ?st = Returned untyped_started"
    by (cases "check_topics_start untyped_graph ?st") (simp_all add: untyped_started_def)
  note T = failed_topic_is_checked[OF h]
  from T have n: "''/a'' \<notin> tracked untyped_started \<and> ''/a'' \<notin> subscribed untyped_started"
    by (simp add: untyped_started_def)
  from T ret have k: "Warn_no_type ''/a'' \<in> set (log untyped_started)
      \<and> ''/a'' \<in> checked_topics untyped_started
      \<and> (\<forall>s. step\<^sup>*\<^sup>* untyped_started s \<longrightarrow>
            (\<forall>e' ts.
               ''/a'' \<notin> tracked (state_of
                     (check_topics_start e' (s\<lparr>important_topics := ts\<rparr>)))
               \<and> ''/a'' \<notin> subscribed (state_of
                     (check_topics_start e' (s\<lparr>important_topics := ts\<rparr>)))))"
    by blast
  have "step\<^sup>*\<^sup>* untyped_started untyped_started" by simp
  with k have "''/a'' \<notin> tracked (state_of (check_topics_start chain_graph
        (untyped_started\<lparr>important_topics := [''/a'']\<rparr>)))
      \<and> ''/a'' \<notin> subscribed (state_of (check_topics_start chain_graph
        (untyped_started\<lparr>important_topics := [''/a'']\<rparr>)))"
    by blast
  then have "''/a'' \<notin> tracked untyped_retried \<and> ''/a'' \<notin> subscribed untyped_retried"
    by (simp add: untyped_retried_def)
  with n k h ret show ?thesis by blast
qed

text \<open>
  The claim C3 as written fails: /a is tried while it has no type, the subscribing step
  returns, and /a is in the checked set afterwards; put back among the important topics
  for a round on a graph where its type resolves, it gets no observation and no
  subscription.
\<close>

theorem failed_topic_retry_counterexample:
  "resolve_msg_class untyped_graph ''/a'' = Skipped (Warn_no_type ''/a'')
   \<and> check_topics_start untyped_graph (checker_on untyped_graph [''/a''])
        = Returned untyped_started
   \<and> ''/a'' \<in> checked_topics untyped_started
   \<and> resolve_msg_class chain_graph ''/a'' = Resolved (''std_msgs'', ''String'')
   \<and> ''/a'' \<in> set (important_topics (untyped_started\<lparr>important_topics := [''/a'']\<rparr>))
   \<and> topic_data untyped_retried = []
   \<and> subscriptions untyped_retried = []"
  by code_simp

subsection \<open>From the frontier to the next round\<close>










end
